theory Spec2Isabelle
  imports Complex_Main "HOL-Library.AList"
begin

section \<open>Python values used by the notebook\<close>

text \<open>
  A Python character (a string of length one) is its Unicode code point; Python orders
  such strings by code point, so \<open>sorted\<close> on characters is \<open>sort\<close> on numbers.
  A Python string is the list of its characters, and \<open>len\<close> counts them.
\<close>

type_synonym pychar = nat
type_synonym pystr = "pychar list"

definition TAB :: pychar where
  "TAB = 9"

definition NEWLINE :: pychar where
  "NEWLINE = 10"

text \<open>The exceptions that the statements of the notebook can raise.\<close>

datatype error = ValueError | KeyError | IndexError

text \<open>
  A \<open>dict\<close> keeps its items in insertion order; building one from a list of pairs lets
  a later pair overwrite the value of an earlier equal key. A missing key raises.
\<close>

type_synonym ('k, 'v) dict = "('k \<times> 'v) list"

definition dict :: "('k \<times> 'v) list \<Rightarrow> ('k, 'v) dict" where
  "dict ps = foldl (\<lambda>d (k, v). AList.update k v d) [] ps"

definition getitem :: "('k, 'v) dict \<Rightarrow> 'k \<Rightarrow> error + 'v" where
  "getitem d k = (case map_of d k of None \<Rightarrow> Inl KeyError | Some v \<Rightarrow> Inr v)"

text \<open>\<open>enumerate(xs)\<close> pairs every element with its position, position first.\<close>

definition enumerate_py :: "'a list \<Rightarrow> (nat \<times> 'a) list" where
  "enumerate_py xs = zip [0..<length xs] xs"

text \<open>\<open>s.split(sep)\<close> for a one-character separator: every occurrence splits.\<close>

fun str_split :: "pychar \<Rightarrow> pystr \<Rightarrow> pystr list" where
  "str_split sep [] = [[]]"
| "str_split sep (c # cs) =
     (if c = sep then [] # str_split sep cs
      else (case str_split sep cs of
              [] \<Rightarrow> [[c]]
            | w # ws \<Rightarrow> (c # w) # ws))"

text \<open>\<open>max\<close> of a list raises \<open>ValueError\<close> on the empty list.\<close>

definition py_max :: "nat list \<Rightarrow> error + nat" where
  "py_max xs = (case xs of [] \<Rightarrow> Inl ValueError | x # r \<Rightarrow> Inr (fold max r x))"

section \<open>Numeric arrays\<close>

text \<open>
  The one-hot arrays have three axes (example, time step, alphabet index).
  \<open>np.zeros((n, m, w))\<close> allocates one; an assignment \<open>a[i, t, k] = 1.\<close> with
  non-negative indices writes in place and raises \<open>IndexError\<close> out of bounds.
\<close>

type_synonym tensor = "real list list list"

definition np_zeros :: "nat \<Rightarrow> nat \<Rightarrow> nat \<Rightarrow> tensor" where
  "np_zeros n m w = replicate n (replicate m (replicate w 0))"

definition set_one :: "tensor \<Rightarrow> nat \<Rightarrow> nat \<Rightarrow> nat \<Rightarrow> error + tensor" where
  "set_one a i t k =
     (if i < length a \<and> t < length (a ! i) \<and> k < length (a ! i ! t)
      then Inr (a[i := (a ! i)[t := (a ! i ! t)[k := 1]]])
      else Inl IndexError)"

section \<open>Reading the sentence pairs\<close>

definition num_samples :: nat where
  "num_samples = 20000"

record corpus =
  inputs :: "pystr list"
  targets :: "pystr list"
  input_chars :: "pychar set"
  target_chars :: "pychar set"

definition empty_corpus :: corpus where
  "empty_corpus = \<lparr>inputs = [], targets = [], input_chars = {}, target_chars = {}\<rparr>"

text \<open>\<open>for char in seq: if char not in chars: chars.add(char)\<close>\<close>

definition add_chars :: "pystr \<Rightarrow> pychar set \<Rightarrow> pychar set" where
  "add_chars seq chars = fold (\<lambda>char S. if char \<notin> S then insert char S else S) seq chars"

text \<open>
  The input is the list \<open>lines\<close> of the file, after the last, blank one is removed.
  The loop over the lines: unpacking \<open>x_seq, y_seq = line.split('\t')\<close> raises
  \<open>ValueError\<close> unless the line has exactly two fields.
\<close>

fun read_pairs :: "pystr list \<Rightarrow> corpus \<Rightarrow> error + corpus" where
  "read_pairs [] C = Inr C"
| "read_pairs (line # rest) C =
     (case str_split TAB line of
        [x_seq, y_raw] \<Rightarrow>
          (let y_seq = TAB # y_raw @ [NEWLINE]
           in read_pairs rest
                \<lparr>inputs = inputs C @ [x_seq],
                 targets = targets C @ [y_seq],
                 input_chars = add_chars x_seq (input_chars C),
                 target_chars = add_chars y_seq (target_chars C)\<rparr>)
      | _ \<Rightarrow> Inl ValueError)"

definition get_pairs :: "pystr list \<Rightarrow> error + corpus" where
  "get_pairs lines = read_pairs (take (min num_samples (length lines)) lines) empty_corpus"

section \<open>Vocabulary tables\<close>

record tables =
  sorted_input_chars :: "pychar list"
  sorted_target_chars :: "pychar list"
  num_encoder_tokens :: nat
  num_decoder_tokens :: nat
  max_encoder_seq_length :: nat
  max_decoder_seq_length :: nat
  input_token_index :: "(pychar, nat) dict"
  target_token_index :: "(pychar, nat) dict"
  reverse_input_char_index :: "(nat, pychar) dict"
  reverse_target_char_index :: "(nat, pychar) dict"

definition token_index :: "pychar list \<Rightarrow> (pychar, nat) dict" where
  "token_index chars = dict (map (\<lambda>(i, char). (char, i)) (enumerate_py chars))"

definition reverse_index :: "(pychar, nat) dict \<Rightarrow> (nat, pychar) dict" where
  "reverse_index idx = dict (map (\<lambda>(char, i). (i, char)) idx)"

definition build_tables :: "corpus \<Rightarrow> error + tables" where
  "build_tables C =
     (let ichars = sorted_list_of_set (input_chars C);
          tchars = sorted_list_of_set (target_chars C)
      in case py_max (map length (inputs C)) of
           Inl e \<Rightarrow> Inl e
         | Inr max_enc \<Rightarrow>
             (case py_max (map length (targets C)) of
                Inl e \<Rightarrow> Inl e
              | Inr max_dec \<Rightarrow>
                  Inr \<lparr>sorted_input_chars = ichars,
                       sorted_target_chars = tchars,
                       num_encoder_tokens = length ichars,
                       num_decoder_tokens = length tchars,
                       max_encoder_seq_length = max_enc,
                       max_decoder_seq_length = max_dec,
                       input_token_index = token_index ichars,
                       target_token_index = token_index tchars,
                       reverse_input_char_index = reverse_index (token_index ichars),
                       reverse_target_char_index = reverse_index (token_index tchars)\<rparr>))"

section \<open>One-hot vectorization\<close>

text \<open>
  \<open>for t, char in enumerate(x_seq): a[i, t, index[char]] = 1.\<close>, from position \<open>t\<close> on.
  The key is looked up before the array is written.
\<close>

fun fill_encoder :: "(pychar, nat) dict \<Rightarrow> nat \<Rightarrow> nat \<Rightarrow> pystr \<Rightarrow> tensor \<Rightarrow> error + tensor" where
  "fill_encoder idx i t [] a = Inr a"
| "fill_encoder idx i t (char # rest) a =
     (case getitem idx char of
        Inl e \<Rightarrow> Inl e
      | Inr k \<Rightarrow>
          (case set_one a i t k of
             Inl e \<Rightarrow> Inl e
           | Inr a' \<Rightarrow> fill_encoder idx i (t + 1) rest a'))"

text \<open>
  The loop over \<open>y_seq\<close> writes the decoder input at \<open>t\<close> and, for \<open>t > 0\<close>, the decoder
  target at \<open>t - 1\<close>.
\<close>

fun fill_decoder ::
  "(pychar, nat) dict \<Rightarrow> nat \<Rightarrow> nat \<Rightarrow> pystr \<Rightarrow> tensor \<times> tensor \<Rightarrow> error + tensor \<times> tensor" where
  "fill_decoder idx i t [] (din, dtg) = Inr (din, dtg)"
| "fill_decoder idx i t (char # rest) (din, dtg) =
     (case getitem idx char of
        Inl e \<Rightarrow> Inl e
      | Inr k \<Rightarrow>
          (case set_one din i t k of
             Inl e \<Rightarrow> Inl e
           | Inr din' \<Rightarrow>
               (if t > 0 then
                  (case set_one dtg i (t - 1) k of
                     Inl e \<Rightarrow> Inl e
                   | Inr dtg' \<Rightarrow> fill_decoder idx i (t + 1) rest (din', dtg'))
                else fill_decoder idx i (t + 1) rest (din', dtg))))"

fun fill_examples ::
  "tables \<Rightarrow> nat \<Rightarrow> (pystr \<times> pystr) list \<Rightarrow> tensor \<times> tensor \<times> tensor
     \<Rightarrow> error + tensor \<times> tensor \<times> tensor" where
  "fill_examples T i [] (enc, din, dtg) = Inr (enc, din, dtg)"
| "fill_examples T i ((x_seq, y_seq) # rest) (enc, din, dtg) =
     (case fill_encoder (input_token_index T) i 0 x_seq enc of
        Inl e \<Rightarrow> Inl e
      | Inr enc' \<Rightarrow>
          (case fill_decoder (target_token_index T) i 0 y_seq (din, dtg) of
             Inl e \<Rightarrow> Inl e
           | Inr (din', dtg') \<Rightarrow> fill_examples T (i + 1) rest (enc', din', dtg')))"

record training_data =
  encoder_input_data :: tensor
  decoder_input_data :: tensor
  decoder_target_data :: tensor

definition vectorize :: "corpus \<Rightarrow> tables \<Rightarrow> error + training_data" where
  "vectorize C T =
     (let enc = np_zeros (length (inputs C)) (max_encoder_seq_length T) (num_encoder_tokens T);
          din = np_zeros (length (inputs C)) (max_decoder_seq_length T) (num_decoder_tokens T);
          dtg = np_zeros (length (inputs C)) (max_decoder_seq_length T) (num_decoder_tokens T)
      in case fill_examples T 0 (zip (inputs C) (targets C)) (enc, din, dtg) of
           Inl e \<Rightarrow> Inl e
         | Inr (enc', din', dtg') \<Rightarrow>
             Inr \<lparr>encoder_input_data = enc',
                  decoder_input_data = din',
                  decoder_target_data = dtg'\<rparr>)"

text \<open>The cells in order: read the pairs, build the tables, vectorize.\<close>

definition prepare :: "pystr list \<Rightarrow> error + corpus \<times> tables \<times> training_data" where
  "prepare lines =
     (case get_pairs lines of
        Inl e \<Rightarrow> Inl e
      | Inr C \<Rightarrow>
          (case build_tables C of
             Inl e \<Rightarrow> Inl e
           | Inr T \<Rightarrow>
               (case vectorize C T of
                  Inl e \<Rightarrow> Inl e
                | Inr D \<Rightarrow> Inr (C, T, D))))"

section \<open>The trained networks\<close>

text \<open>
  The two inference models are opaque functions of the trained weights. The recurrent
  state (the pair \<open>[h, c]\<close>) is a value of an arbitrary type \<open>'s\<close>.
  \<open>encoder_model.predict\<close> maps the one-hot input to the state;
  \<open>decoder_model.predict\<close> maps the one-hot current character and a state to the
  output distribution and the next state. The output array has shape
  \<open>(1, 1, num_decoder_tokens)\<close>; the model keeps its only row, which is what
  \<open>output_tokens[0, -1, :]\<close> reads. Probabilities are real numbers (no NaN).
\<close>

record 's nets =
  encoder_model :: "tensor \<Rightarrow> 's"
  decoder_model :: "tensor \<Rightarrow> 's \<Rightarrow> real list \<times> 's"

text \<open>
  \<open>np.argmax\<close> scans left to right and keeps the position of the first strictly larger
  value; it raises \<open>ValueError\<close> on an empty sequence.
\<close>

fun argmax_scan :: "real list \<Rightarrow> nat \<Rightarrow> nat \<Rightarrow> real \<Rightarrow> nat" where
  "argmax_scan [] i best v = best"
| "argmax_scan (x # xs) i best v =
     (if v < x then argmax_scan xs (i + 1) i x else argmax_scan xs (i + 1) best v)"

definition np_argmax :: "real list \<Rightarrow> error + nat" where
  "np_argmax xs = (case xs of [] \<Rightarrow> Inl ValueError | x # r \<Rightarrow> Inr (argmax_scan r 1 0 x))"

section \<open>Greedy decoding\<close>

record 's loop_state =
  target_seq :: tensor
  states_value :: 's
  decoded_sentence :: pystr
  stop_condition :: bool

text \<open>The one-hot array of the input sentence, a single example.\<close>

definition input_seq :: "tables \<Rightarrow> pystr \<Rightarrow> error + tensor" where
  "input_seq T input_sentence =
     fill_encoder (input_token_index T) 0 0 input_sentence
       (np_zeros 1 (max_encoder_seq_length T) (num_encoder_tokens T))"

text \<open>Everything before the loop: the encoder state and the start character.\<close>

definition before_loop :: "tables \<Rightarrow> 's nets \<Rightarrow> pystr \<Rightarrow> error + 's loop_state" where
  "before_loop T N input_sentence =
     (case input_seq T input_sentence of
        Inl e \<Rightarrow> Inl e
      | Inr iseq \<Rightarrow>
          (case getitem (target_token_index T) TAB of
             Inl e \<Rightarrow> Inl e
           | Inr k \<Rightarrow>
               (case set_one (np_zeros 1 1 (num_decoder_tokens T)) 0 0 k of
                  Inl e \<Rightarrow> Inl e
                | Inr tseq \<Rightarrow>
                    Inr \<lparr>target_seq = tseq,
                         states_value = encoder_model N iseq,
                         decoded_sentence = [],
                         stop_condition = False\<rparr>)))"

text \<open>One execution of the body of the \<open>while\<close> loop.\<close>

definition loop_body :: "tables \<Rightarrow> 's nets \<Rightarrow> 's loop_state \<Rightarrow> error + 's loop_state" where
  "loop_body T N s =
     (case decoder_model N (target_seq s) (states_value s) of
        (output_tokens, hc) \<Rightarrow>
          (case np_argmax output_tokens of
             Inl e \<Rightarrow> Inl e
           | Inr sampled_token_index \<Rightarrow>
               (case getitem (reverse_target_char_index T) sampled_token_index of
                  Inl e \<Rightarrow> Inl e
                | Inr sampled_char \<Rightarrow>
                    (let decoded = decoded_sentence s @ [sampled_char];
                         stop = (if sampled_char = NEWLINE
                                    \<or> length decoded > max_decoder_seq_length T
                                 then True else stop_condition s)
                     in case set_one (np_zeros 1 1 (num_decoder_tokens T)) 0 0
                               sampled_token_index of
                          Inl e \<Rightarrow> Inl e
                        | Inr tseq \<Rightarrow>
                            Inr \<lparr>target_seq = tseq,
                                 states_value = hc,
                                 decoded_sentence = decoded,
                                 stop_condition = stop\<rparr>))))"

text \<open>\<open>while not stop_condition: body\<close>\<close>

function decode_loop :: "tables \<Rightarrow> 's nets \<Rightarrow> 's loop_state \<Rightarrow> error + 's loop_state" where
  "decode_loop T N s =
     (if stop_condition s then Inr s
      else (case loop_body T N s of
              Inl e \<Rightarrow> Inl e
            | Inr s' \<Rightarrow> decode_loop T N s'))"
  by pat_completeness auto
termination
proof (relation "measure (\<lambda>(T, N, s). if stop_condition s then 0
          else Suc (Suc (max_decoder_seq_length T) - length (decoded_sentence s)))")
  show "wf (measure (\<lambda>(T, N, s). if stop_condition s then 0
          else Suc (Suc (max_decoder_seq_length T) - length (decoded_sentence s))))"
    by simp
next
  fix T :: tables and N :: "'s nets" and s s' :: "'s loop_state"
  assume run: "\<not> stop_condition s" and body: "loop_body T N s = Inr s'"
  show "((T, N, s'), (T, N, s)) \<in> measure (\<lambda>(T, N, s). if stop_condition s then 0
          else Suc (Suc (max_decoder_seq_length T) - length (decoded_sentence s)))"
  proof (cases "stop_condition s'")
    case True
    with run show ?thesis by simp
  next
    case False
    with body have "length (decoded_sentence s') \<le> max_decoder_seq_length T"
      and "length (decoded_sentence s') = Suc (length (decoded_sentence s))"
      by (auto simp: loop_body_def Let_def split: prod.splits sum.splits if_splits)
    with run False show ?thesis by simp
  qed
qed

text \<open>The number of times the body is executed by the loop started in a state.\<close>

function loop_iterations :: "tables \<Rightarrow> 's nets \<Rightarrow> 's loop_state \<Rightarrow> nat" where
  "loop_iterations T N s =
     (if stop_condition s then 0
      else (case loop_body T N s of
              Inl e \<Rightarrow> 1
            | Inr s' \<Rightarrow> 1 + loop_iterations T N s'))"
  by pat_completeness auto
termination
proof (relation "measure (\<lambda>(T, N, s). if stop_condition s then 0
          else Suc (Suc (max_decoder_seq_length T) - length (decoded_sentence s)))")
  show "wf (measure (\<lambda>(T, N, s). if stop_condition s then 0
          else Suc (Suc (max_decoder_seq_length T) - length (decoded_sentence s))))"
    by simp
next
  fix T :: tables and N :: "'s nets" and s s' :: "'s loop_state"
  assume run: "\<not> stop_condition s" and body: "loop_body T N s = Inr s'"
  show "((T, N, s'), (T, N, s)) \<in> measure (\<lambda>(T, N, s). if stop_condition s then 0
          else Suc (Suc (max_decoder_seq_length T) - length (decoded_sentence s)))"
  proof (cases "stop_condition s'")
    case True
    with run show ?thesis by simp
  next
    case False
    with body have "length (decoded_sentence s') \<le> max_decoder_seq_length T"
      and "length (decoded_sentence s') = Suc (length (decoded_sentence s))"
      by (auto simp: loop_body_def Let_def split: prod.splits sum.splits if_splits)
    with run False show ?thesis by simp
  qed
qed

definition decode_sentence :: "tables \<Rightarrow> 's nets \<Rightarrow> pystr \<Rightarrow> error + pystr" where
  "decode_sentence T N input_sentence =
     (case before_loop T N input_sentence of
        Inl e \<Rightarrow> Inl e
      | Inr s0 \<Rightarrow>
          (case decode_loop T N s0 of
             Inl e \<Rightarrow> Inl e
           | Inr s \<Rightarrow> Inr (decoded_sentence s)))"

text \<open>The number of executions of the loop body in one call of \<open>decode_sentence\<close>.\<close>

definition decode_iterations :: "tables \<Rightarrow> 's nets \<Rightarrow> pystr \<Rightarrow> nat" where
  "decode_iterations T N input_sentence =
     (case before_loop T N input_sentence of
        Inl e \<Rightarrow> 0
      | Inr s0 \<Rightarrow> loop_iterations T N s0)"

section \<open>Predicates used in the proofs\<close>

text \<open>An array with \<open>n\<close> examples, \<open>m\<close> time steps and \<open>w\<close> alphabet positions.\<close>

definition has_shape :: "tensor \<Rightarrow> nat \<Rightarrow> nat \<Rightarrow> nat \<Rightarrow> bool" where
  "has_shape a n m w =
     (length a = n \<and> (\<forall>i<n. length (a ! i) = m \<and> (\<forall>t<m. length (a ! i ! t) = w)))"

text \<open>
  What the loop over the lines maintains: one target per input, the character sets are
  the characters seen, and every target is wrapped in the start and the end marker.
\<close>

definition corpus_ok :: "corpus \<Rightarrow> bool" where
  "corpus_ok C =
     (length (inputs C) = length (targets C)
      \<and> input_chars C = \<Union> (set ` set (inputs C))
      \<and> target_chars C = \<Union> (set ` set (targets C))
      \<and> (\<forall>y\<in>set (targets C). \<exists>r. y = TAB # r @ [NEWLINE]))"

section \<open>A small corpus and a small decoder\<close>

text \<open>
  The corpus of the single line \<open>b<TAB>abaa\<close>, and the values the cells compute from it.
\<close>

definition demo_lines :: "pystr list" where
  "demo_lines = [[98, 9, 97, 98, 97, 97]]"

definition demo_corpus :: corpus where
  "demo_corpus = \<lparr>inputs = [[98]], targets = [[9, 97, 98, 97, 97, 10]],
     input_chars = {98}, target_chars = {9, 10, 97, 98}\<rparr>"

definition demo_tables :: tables where
  "demo_tables = \<lparr>sorted_input_chars = [98], sorted_target_chars = [9, 10, 97, 98],
     num_encoder_tokens = 1, num_decoder_tokens = 4,
     max_encoder_seq_length = 1, max_decoder_seq_length = 6,
     input_token_index = [(98, 0)],
     target_token_index = [(9, 0), (10, 1), (97, 2), (98, 3)],
     reverse_input_char_index = [(0, 98)],
     reverse_target_char_index = [(0, 9), (1, 10), (2, 97), (3, 98)]\<rparr>"

definition demo_data :: training_data where
  "demo_data = \<lparr>encoder_input_data = [[[1]]],
     decoder_input_data =
       [[[1, 0, 0, 0], [0, 0, 1, 0], [0, 0, 0, 1], [0, 0, 1, 0], [0, 0, 1, 0], [0, 1, 0, 0]]],
     decoder_target_data =
       [[[0, 0, 1, 0], [0, 0, 0, 1], [0, 0, 1, 0], [0, 0, 1, 0], [0, 1, 0, 0], [0, 0, 0, 0]]]\<rparr>"

text \<open>
  Two decoders over the alphabet of this corpus (\<open>TAB\<close>, newline, \<open>a\<close>, \<open>b\<close> at the
  indices 0 to 3), with a step counter as recurrent state: one emits \<open>a\<close> for the first
  \<open>k\<close> steps and the end marker afterwards, the other gives every character the same
  probability at every step.
\<close>

definition count_nets :: "nat \<Rightarrow> nat nets" where
  "count_nets k =
     \<lparr>encoder_model = (\<lambda>iseq. 0),
      decoder_model = (\<lambda>tseq n. (if n < k then [0, 0, 1, 0] else [0, 1, 0, 0], n + 1))\<rparr>"

definition uniform_nets :: "nat nets" where
  "uniform_nets =
     \<lparr>encoder_model = (\<lambda>iseq. 0),
      decoder_model = (\<lambda>tseq n. ([1 / 4, 1 / 4, 1 / 4, 1 / 4], n + 1))\<rparr>"

text \<open>A decoder whose output has its maximum at the indices 1 and 3, and a loop state.\<close>

definition tie_nets :: "nat nets" where
  "tie_nets =
     \<lparr>encoder_model = (\<lambda>iseq. 0),
      decoder_model = (\<lambda>tseq n. ([1 / 10, 2 / 5, 1 / 10, 2 / 5], n + 1))\<rparr>"

definition tie_state :: "nat loop_state" where
  "tie_state = \<lparr>target_seq = [[[1, 0, 0, 0]]], states_value = 0,
                decoded_sentence = [], stop_condition = False\<rparr>"

text \<open>
  A decoder whose encoder tells the all-zero input of width one from any other input:
  the step counter starts at 0 for the former and at 3 otherwise.
\<close>

definition probe_nets :: "nat nets" where
  "probe_nets =
     \<lparr>encoder_model = (\<lambda>iseq. if iseq = [[[0]]] then 0 else 3),
      decoder_model = (\<lambda>tseq n. (if n < 5 then [0, 0, 1, 0] else [0, 1, 0, 0], n + 1))\<rparr>"

text \<open>
  The corpus of the single line \<open><TAB>a\<close>, whose source sentence is empty, and the
  values the cells compute from it.
\<close>

definition blank_lines :: "pystr list" where
  "blank_lines = [[9, 97]]"

definition blank_corpus :: corpus where
  "blank_corpus = \<lparr>inputs = [[]], targets = [[9, 97, 10]],
     input_chars = {}, target_chars = {9, 10, 97}\<rparr>"

definition blank_tables :: tables where
  "blank_tables = \<lparr>sorted_input_chars = [], sorted_target_chars = [9, 10, 97],
     num_encoder_tokens = 0, num_decoder_tokens = 3,
     max_encoder_seq_length = 0, max_decoder_seq_length = 3,
     input_token_index = [],
     target_token_index = [(9, 0), (10, 1), (97, 2)],
     reverse_input_char_index = [],
     reverse_target_char_index = [(0, 9), (1, 10), (2, 97)]\<rparr>"

definition blank_data :: training_data where
  "blank_data = \<lparr>encoder_input_data = [[]],
     decoder_input_data = [[[1, 0, 0], [0, 0, 1], [0, 1, 0]]],
     decoder_target_data = [[[0, 0, 1], [0, 1, 0], [0, 0, 0]]]\<rparr>"

section \<open>Dictionaries and vocabulary tables\<close>

lemma update_fresh: "k \<notin> fst ` set d \<Longrightarrow> AList.update k v d = d @ [(k, v)]"
  by (induction d) auto

lemma foldl_update_distinct:
  "distinct (map fst (d @ ps)) \<Longrightarrow>
   foldl (\<lambda>d (k, v). AList.update k v d) d ps = d @ ps"
proof (induction ps arbitrary: d)
  case Nil
  then show ?case by simp
next
  case (Cons p ps)
  obtain k v where p: "p = (k, v)" by (cases p)
  from Cons.prems p have fresh: "k \<notin> fst ` set d" by auto
  from Cons.prems p have "distinct (map fst ((d @ [(k, v)]) @ ps))" by simp
  from Cons.IH [OF this] show ?case by (simp add: p update_fresh [OF fresh])
qed

lemma dict_distinct: "distinct (map fst ps) \<Longrightarrow> dict ps = ps"
  using foldl_update_distinct [of "[]" ps] by (simp add: dict_def)

lemma enumerate_swap:
  "map (\<lambda>(i, char). (char, i)) (enumerate_py chars) = zip chars [0..<length chars]"
proof -
  have "zip [0..<length chars] chars = map (\<lambda>(c, i). (i, c)) (zip chars [0..<length chars])"
    by (rule zip_commute)
  then show ?thesis by (simp add: enumerate_py_def case_prod_unfold comp_def)
qed

lemma token_index_zip: "distinct chars \<Longrightarrow> token_index chars = zip chars [0..<length chars]"
  by (simp add: token_index_def enumerate_swap dict_distinct)

lemma reverse_index_zip:
  "reverse_index (zip chars [0..<length chars]) = zip [0..<length chars] chars"
proof -
  have "zip [0..<length chars] chars = map (\<lambda>(c, i). (i, c)) (zip chars [0..<length chars])"
    by (rule zip_commute)
  then have "reverse_index (zip chars [0..<length chars]) = dict (zip [0..<length chars] chars)"
    by (simp add: reverse_index_def)
  moreover have "distinct (map fst (zip [0..<length chars] chars))"
    by simp
  ultimately show ?thesis by (simp add: dict_distinct)
qed

lemma getitem_token_index:
  assumes "distinct chars" and "i < length chars"
  shows "getitem (token_index chars) (chars ! i) = Inr i"
    and "getitem (reverse_index (token_index chars)) i = Inr (chars ! i)"
proof -
  from assms have "map_of (zip chars [0..<length chars]) (chars ! i) = Some ([0..<length chars] ! i)"
    by (intro map_of_zip_nth) simp_all
  with assms show "getitem (token_index chars) (chars ! i) = Inr i"
    by (simp add: getitem_def token_index_zip)
  from assms have "map_of (zip [0..<length chars] chars) ([0..<length chars] ! i) = Some (chars ! i)"
    by (intro map_of_zip_nth) simp_all
  with assms show "getitem (reverse_index (token_index chars)) i = Inr (chars ! i)"
    by (simp add: getitem_def token_index_zip reverse_index_zip)
qed

lemma getitem_token_index_missing:
  "distinct chars \<Longrightarrow> c \<notin> set chars \<Longrightarrow> getitem (token_index chars) c = Inl KeyError"
  by (simp add: getitem_def token_index_zip map_of_zip_is_None [THEN iffD2] split: option.splits)

lemma add_chars_union: "add_chars seq chars = chars \<union> set seq"
  unfolding add_chars_def by (induction seq arbitrary: chars) (auto simp: insert_absorb)

section \<open>Array updates\<close>

lemma has_shape_zeros: "has_shape (np_zeros n m w) n m w"
  by (simp add: has_shape_def np_zeros_def)

lemma np_zeros_row: "i < n \<Longrightarrow> t < m \<Longrightarrow> np_zeros n m w ! i ! t = replicate w 0"
  by (simp add: np_zeros_def)

lemma set_one_ok:
  assumes "has_shape a n m w" and "i < n" and "t < m" and "k < w"
  shows "\<exists>a'. set_one a i t k = Inr a' \<and> has_shape a' n m w
           \<and> a' ! i ! t = (a ! i ! t)[k := 1]
           \<and> (\<forall>i' t'. (i', t') \<noteq> (i, t) \<longrightarrow> a' ! i' ! t' = a ! i' ! t')"
proof -
  let ?a' = "a[i := (a ! i)[t := (a ! i ! t)[k := 1]]]"
  from assms have ok: "set_one a i t k = Inr ?a'"
    by (simp add: set_one_def has_shape_def)
  from assms have shape: "has_shape ?a' n m w"
    by (auto simp: has_shape_def nth_list_update)
  from assms have here: "?a' ! i ! t = (a ! i ! t)[k := 1]"
    by (simp add: has_shape_def)
  have there: "?a' ! i' ! t' = a ! i' ! t'" if "(i', t') \<noteq> (i, t)" for i' t'
  proof (cases "i' = i")
    case True
    with that have "t' \<noteq> t" by simp
    with True assms show ?thesis by (simp add: has_shape_def)
  next
    case False
    then show ?thesis by simp
  qed
  from ok shape here there show ?thesis by blast
qed

lemma set_one_out_of_bounds:
  "has_shape a n m w \<Longrightarrow> i < n \<Longrightarrow> m \<le> t \<Longrightarrow> set_one a i t k = Inl IndexError"
  by (simp add: set_one_def has_shape_def)

lemma fill_decoder_rows:
  assumes "has_shape din n m w" and "has_shape dtg n m w" and "i < n"
    and "t + length cs \<le> m"
    and "\<And>c. c \<in> set cs \<Longrightarrow> getitem idx c = Inr (f c) \<and> f c < w"
  shows "\<exists>din' dtg'. fill_decoder idx i t cs (din, dtg) = Inr (din', dtg')
      \<and> has_shape din' n m w \<and> has_shape dtg' n m w
      \<and> (\<forall>i' t'. din' ! i' ! t' =
            (if i' = i \<and> t \<le> t' \<and> t' < t + length cs
             then (din ! i ! t')[f (cs ! (t' - t)) := 1] else din ! i' ! t'))
      \<and> (\<forall>i' t'. dtg' ! i' ! t' =
            (if i' = i \<and> t \<le> Suc t' \<and> Suc t' < t + length cs
             then (dtg ! i ! t')[f (cs ! (Suc t' - t)) := 1] else dtg ! i' ! t'))"
  using assms
proof (induction cs arbitrary: t din dtg)
  case Nil
  then show ?case by auto
next
  case (Cons c cs)
  from Cons.prems(5) [of c] have key: "getitem idx c = Inr (f c)" and small: "f c < w"
    by simp_all
  from Cons.prems(4) have t_in: "t < m" by simp
  from set_one_ok [OF Cons.prems(1,3) t_in small]
  obtain din1 where din1: "set_one din i t (f c) = Inr din1" "has_shape din1 n m w"
      "din1 ! i ! t = (din ! i ! t)[f c := 1]"
      "\<And>i' t'. (i', t') \<noteq> (i, t) \<Longrightarrow> din1 ! i' ! t' = din ! i' ! t'"
    by blast
  have "\<exists>dtg1. fill_decoder idx i t (c # cs) (din, dtg) = fill_decoder idx i (Suc t) cs (din1, dtg1)
      \<and> has_shape dtg1 n m w
      \<and> (\<forall>i' t'. dtg1 ! i' ! t' =
            (if i' = i \<and> Suc t' = t then (dtg ! i ! t')[f c := 1] else dtg ! i' ! t'))"
  proof (cases "t > 0")
    case True
    with t_in have "t - 1 < m" by simp
    from set_one_ok [OF Cons.prems(2,3) this small]
    obtain dtg1 where dtg1: "set_one dtg i (t - 1) (f c) = Inr dtg1" "has_shape dtg1 n m w"
        "dtg1 ! i ! (t - 1) = (dtg ! i ! (t - 1))[f c := 1]"
        "\<And>i' t'. (i', t') \<noteq> (i, t - 1) \<Longrightarrow> dtg1 ! i' ! t' = dtg ! i' ! t'"
      by blast
    have "dtg1 ! i' ! t' =
            (if i' = i \<and> Suc t' = t then (dtg ! i ! t')[f c := 1] else dtg ! i' ! t')" for i' t'
    proof (cases "i' = i \<and> Suc t' = t")
      case True
      then have "t' = t - 1" by auto
      with True dtg1(3) show ?thesis by simp
    next
      case False
      then have "(i', t') \<noteq> (i, t - 1)" using \<open>t > 0\<close> by auto
      from dtg1(4) [OF this] False show ?thesis by auto
    qed
    with True key din1(1) dtg1(1,2) show ?thesis by auto
  next
    case False
    with key din1(1) Cons.prems(2) show ?thesis by auto
  qed
  then obtain dtg1 where step: "fill_decoder idx i t (c # cs) (din, dtg)
        = fill_decoder idx i (Suc t) cs (din1, dtg1)"
    and dtg1_shape: "has_shape dtg1 n m w"
    and dtg1_rows: "\<And>i' t'. dtg1 ! i' ! t' =
            (if i' = i \<and> Suc t' = t then (dtg ! i ! t')[f c := 1] else dtg ! i' ! t')"
    by blast
  from Cons.prems(4) have len: "Suc t + length cs \<le> m" by simp
  have keys: "\<And>c. c \<in> set cs \<Longrightarrow> getitem idx c = Inr (f c) \<and> f c < w"
    using Cons.prems(5) by simp
  from Cons.IH [OF din1(2) dtg1_shape Cons.prems(3) len keys]
  obtain din' dtg' where res: "fill_decoder idx i (Suc t) cs (din1, dtg1) = Inr (din', dtg')"
    and shapes: "has_shape din' n m w" "has_shape dtg' n m w"
    and din'_rows: "\<And>i' t'. din' ! i' ! t' =
            (if i' = i \<and> Suc t \<le> t' \<and> t' < Suc t + length cs
             then (din1 ! i ! t')[f (cs ! (t' - Suc t)) := 1] else din1 ! i' ! t')"
    and dtg'_rows: "\<And>i' t'. dtg' ! i' ! t' =
            (if i' = i \<and> Suc t \<le> Suc t' \<and> Suc t' < Suc t + length cs
             then (dtg1 ! i ! t')[f (cs ! (Suc t' - Suc t)) := 1] else dtg1 ! i' ! t')"
    by blast
  have A: "din' ! i' ! t' =
            (if i' = i \<and> t \<le> t' \<and> t' < t + length (c # cs)
             then (din ! i ! t')[f ((c # cs) ! (t' - t)) := 1] else din ! i' ! t')" for i' t'
  proof -
    consider (here) "i' = i" "t' = t" | (later) "i' = i" "t < t'" | (other) "i' \<noteq> i \<or> t' < t"
      by linarith
    then show ?thesis
    proof cases
      case here
      then show ?thesis by (simp add: din'_rows din1(3))
    next
      case later
      then have "(i, t') \<noteq> (i, t)" by simp
      from din1(4) [OF this] have same: "din1 ! i ! t' = din ! i ! t'" .
      from later have "t' - t = Suc (t' - Suc t)" by simp
      with later same show ?thesis by (simp add: din'_rows)
    next
      case other
      then have "(i', t') \<noteq> (i, t)" by auto
      from din1(4) [OF this] other show ?thesis by (auto simp: din'_rows)
    qed
  qed
  have B: "dtg' ! i' ! t' =
            (if i' = i \<and> t \<le> Suc t' \<and> Suc t' < t + length (c # cs)
             then (dtg ! i ! t')[f ((c # cs) ! (Suc t' - t)) := 1] else dtg ! i' ! t')" for i' t'
  proof -
    consider (here) "i' = i" "Suc t' = t" | (later) "i' = i" "t < Suc t'"
      | (other) "i' \<noteq> i \<or> Suc t' < t"
      by linarith
    then show ?thesis
    proof cases
      case here
      then show ?thesis by (auto simp: dtg'_rows dtg1_rows)
    next
      case later
      then have "Suc t' - t = Suc (t' - t)" by simp
      with later show ?thesis by (simp add: dtg'_rows dtg1_rows)
    next
      case other
      then show ?thesis by (auto simp: dtg'_rows dtg1_rows)
    qed
  qed
  from step res have "fill_decoder idx i t (c # cs) (din, dtg) = Inr (din', dtg')"
    by simp
  with shapes A B show ?case by (intro exI conjI allI)
qed

lemma fill_encoder_rows:
  assumes "has_shape a n m w" and "i < n" and "t + length cs \<le> m"
    and "\<And>c. c \<in> set cs \<Longrightarrow> getitem idx c = Inr (f c) \<and> f c < w"
  shows "\<exists>a'. fill_encoder idx i t cs a = Inr a' \<and> has_shape a' n m w
      \<and> (\<forall>i' t'. a' ! i' ! t' =
            (if i' = i \<and> t \<le> t' \<and> t' < t + length cs
             then (a ! i ! t')[f (cs ! (t' - t)) := 1] else a ! i' ! t'))"
  using assms
proof (induction cs arbitrary: t a)
  case Nil
  then show ?case by auto
next
  case (Cons c cs)
  from Cons.prems(4) [of c] have key: "getitem idx c = Inr (f c)" and small: "f c < w"
    by simp_all
  from Cons.prems(3) have t_in: "t < m" by simp
  from set_one_ok [OF Cons.prems(1,2) t_in small]
  obtain a1 where a1: "set_one a i t (f c) = Inr a1" "has_shape a1 n m w"
      "a1 ! i ! t = (a ! i ! t)[f c := 1]"
      "\<And>i' t'. (i', t') \<noteq> (i, t) \<Longrightarrow> a1 ! i' ! t' = a ! i' ! t'"
    by blast
  from Cons.prems(3) have len: "Suc t + length cs \<le> m" by simp
  have keys: "\<And>c. c \<in> set cs \<Longrightarrow> getitem idx c = Inr (f c) \<and> f c < w"
    using Cons.prems(4) by simp
  from Cons.IH [OF a1(2) Cons.prems(2) len keys]
  obtain a' where res: "fill_encoder idx i (Suc t) cs a1 = Inr a'"
    and shape: "has_shape a' n m w"
    and rows: "\<And>i' t'. a' ! i' ! t' =
            (if i' = i \<and> Suc t \<le> t' \<and> t' < Suc t + length cs
             then (a1 ! i ! t')[f (cs ! (t' - Suc t)) := 1] else a1 ! i' ! t')"
    by blast
  have A: "a' ! i' ! t' =
            (if i' = i \<and> t \<le> t' \<and> t' < t + length (c # cs)
             then (a ! i ! t')[f ((c # cs) ! (t' - t)) := 1] else a ! i' ! t')" for i' t'
  proof -
    consider (here) "i' = i" "t' = t" | (later) "i' = i" "t < t'" | (other) "i' \<noteq> i \<or> t' < t"
      by linarith
    then show ?thesis
    proof cases
      case here
      then show ?thesis by (simp add: rows a1(3))
    next
      case later
      then have "(i, t') \<noteq> (i, t)" by simp
      from a1(4) [OF this] have same: "a1 ! i ! t' = a ! i ! t'" .
      from later have "t' - t = Suc (t' - Suc t)" by simp
      with later same show ?thesis by (simp add: rows)
    next
      case other
      then have "(i', t') \<noteq> (i, t)" by auto
      from a1(4) [OF this] other show ?thesis by (auto simp: rows)
    qed
  qed
  from key a1(1) res have "fill_encoder idx i t (c # cs) a = Inr a'"
    by simp
  with shape A show ?case by (intro exI conjI allI)
qed

lemma fill_encoder_append:
  "fill_encoder idx i t (xs @ ys) a =
     (case fill_encoder idx i t xs a of
        Inl e \<Rightarrow> Inl e
      | Inr a' \<Rightarrow> fill_encoder idx i (t + length xs) ys a')"
  by (induction xs arbitrary: t a) (auto split: sum.splits)

lemma fill_examples_rows:
  assumes "has_shape enc n me we" and "has_shape din n md wd" and "has_shape dtg n md wd"
    and "i + length ps \<le> n"
    and "\<forall>p\<in>set ps. length (fst p) \<le> me \<and> length (snd p) \<le> md"
    and "\<forall>p\<in>set ps. \<forall>c\<in>set (fst p).
            getitem (input_token_index T) c = Inr (f c) \<and> f c < we"
    and "\<forall>p\<in>set ps. \<forall>c\<in>set (snd p).
            getitem (target_token_index T) c = Inr (g c) \<and> g c < wd"
  shows "\<exists>enc' din' dtg'. fill_examples T i ps (enc, din, dtg) = Inr (enc', din', dtg')
      \<and> has_shape enc' n me we
      \<and> (\<forall>i' t'. enc' ! i' ! t' =
            (if i \<le> i' \<and> i' < i + length ps \<and> t' < length (fst (ps ! (i' - i)))
             then (enc ! i' ! t')[f (fst (ps ! (i' - i)) ! t') := 1] else enc ! i' ! t'))
      \<and> (\<forall>i' t'. din' ! i' ! t' =
            (if i \<le> i' \<and> i' < i + length ps \<and> t' < length (snd (ps ! (i' - i)))
             then (din ! i' ! t')[g (snd (ps ! (i' - i)) ! t') := 1] else din ! i' ! t'))
      \<and> (\<forall>i' t'. dtg' ! i' ! t' =
            (if i \<le> i' \<and> i' < i + length ps \<and> Suc t' < length (snd (ps ! (i' - i)))
             then (dtg ! i' ! t')[g (snd (ps ! (i' - i)) ! Suc t') := 1] else dtg ! i' ! t'))"
  using assms
proof (induction ps arbitrary: i enc din dtg)
  case Nil
  then show ?case by auto
next
  case (Cons p ps)
  obtain x y where p: "p = (x, y)" by (cases p)
  from Cons.prems(4) have i_in: "i < n" by simp
  from Cons.prems(5) p have lens: "0 + length x \<le> me" "0 + length y \<le> md"
    by simp_all
  have xkeys: "\<And>c. c \<in> set x \<Longrightarrow> getitem (input_token_index T) c = Inr (f c) \<and> f c < we"
    using Cons.prems(6) p by simp
  have ykeys: "\<And>c. c \<in> set y \<Longrightarrow> getitem (target_token_index T) c = Inr (g c) \<and> g c < wd"
    using Cons.prems(7) p by simp
  from fill_encoder_rows [OF Cons.prems(1) i_in lens(1) xkeys]
  obtain enc1 where enc1: "fill_encoder (input_token_index T) i 0 x enc = Inr enc1"
      "has_shape enc1 n me we"
      "\<And>i' t'. enc1 ! i' ! t' =
            (if i' = i \<and> t' < length x then (enc ! i ! t')[f (x ! t') := 1] else enc ! i' ! t')"
    by auto
  from fill_decoder_rows [OF Cons.prems(2,3) i_in lens(2) ykeys]
  obtain din1 dtg1 where dec1:
      "fill_decoder (target_token_index T) i 0 y (din, dtg) = Inr (din1, dtg1)"
      "has_shape din1 n md wd" "has_shape dtg1 n md wd"
      "\<And>i' t'. din1 ! i' ! t' =
            (if i' = i \<and> t' < length y then (din ! i ! t')[g (y ! t') := 1] else din ! i' ! t')"
      "\<And>i' t'. dtg1 ! i' ! t' =
            (if i' = i \<and> Suc t' < length y then (dtg ! i ! t')[g (y ! Suc t') := 1]
             else dtg ! i' ! t')"
    by auto
  from Cons.prems(4) have room: "Suc i + length ps \<le> n" by simp
  have lens': "\<forall>p\<in>set ps. length (fst p) \<le> me \<and> length (snd p) \<le> md"
    using Cons.prems(5) by simp
  have xkeys': "\<forall>p\<in>set ps. \<forall>c\<in>set (fst p).
            getitem (input_token_index T) c = Inr (f c) \<and> f c < we"
    using Cons.prems(6) by simp
  have ykeys': "\<forall>p\<in>set ps. \<forall>c\<in>set (snd p).
            getitem (target_token_index T) c = Inr (g c) \<and> g c < wd"
    using Cons.prems(7) by simp
  from Cons.IH [OF enc1(2) dec1(2,3) room lens' xkeys' ykeys']
  obtain enc' din' dtg' where
    res: "fill_examples T (Suc i) ps (enc1, din1, dtg1) = Inr (enc', din', dtg')"
    and enc'_shape: "has_shape enc' n me we"
    and enc'_rows: "\<And>i' t'. enc' ! i' ! t' =
            (if Suc i \<le> i' \<and> i' < Suc i + length ps \<and> t' < length (fst (ps ! (i' - Suc i)))
             then (enc1 ! i' ! t')[f (fst (ps ! (i' - Suc i)) ! t') := 1] else enc1 ! i' ! t')"
    and din'_rows: "\<And>i' t'. din' ! i' ! t' =
            (if Suc i \<le> i' \<and> i' < Suc i + length ps \<and> t' < length (snd (ps ! (i' - Suc i)))
             then (din1 ! i' ! t')[g (snd (ps ! (i' - Suc i)) ! t') := 1] else din1 ! i' ! t')"
    and dtg'_rows: "\<And>i' t'. dtg' ! i' ! t' =
            (if Suc i \<le> i' \<and> i' < Suc i + length ps \<and> Suc t' < length (snd (ps ! (i' - Suc i)))
             then (dtg1 ! i' ! t')[g (snd (ps ! (i' - Suc i)) ! Suc t') := 1]
             else dtg1 ! i' ! t')"
    by blast
  have sub: "i' - i = Suc (i' - Suc i)" if "i < i'" for i'
    using that by simp
  have E: "enc' ! i' ! t' =
            (if i \<le> i' \<and> i' < i + length (p # ps) \<and> t' < length (fst ((p # ps) ! (i' - i)))
             then (enc ! i' ! t')[f (fst ((p # ps) ! (i' - i)) ! t') := 1] else enc ! i' ! t')"
    for i' t'
  proof -
    consider (here) "i' = i" | (later) "i < i'" | (before) "i' < i" by linarith
    then show ?thesis
    proof cases
      case here
      then show ?thesis by (simp add: enc'_rows enc1(3) p)
    next
      case later
      with sub [OF later] show ?thesis by (simp add: enc'_rows enc1(3))
    next
      case before
      then show ?thesis by (simp add: enc'_rows enc1(3))
    qed
  qed
  have A: "din' ! i' ! t' =
            (if i \<le> i' \<and> i' < i + length (p # ps) \<and> t' < length (snd ((p # ps) ! (i' - i)))
             then (din ! i' ! t')[g (snd ((p # ps) ! (i' - i)) ! t') := 1] else din ! i' ! t')"
    for i' t'
  proof -
    consider (here) "i' = i" | (later) "i < i'" | (before) "i' < i" by linarith
    then show ?thesis
    proof cases
      case here
      then show ?thesis by (simp add: din'_rows dec1(4) p)
    next
      case later
      with sub [OF later] show ?thesis by (simp add: din'_rows dec1(4))
    next
      case before
      then show ?thesis by (simp add: din'_rows dec1(4))
    qed
  qed
  have B: "dtg' ! i' ! t' =
            (if i \<le> i' \<and> i' < i + length (p # ps) \<and> Suc t' < length (snd ((p # ps) ! (i' - i)))
             then (dtg ! i' ! t')[g (snd ((p # ps) ! (i' - i)) ! Suc t') := 1]
             else dtg ! i' ! t')"
    for i' t'
  proof -
    consider (here) "i' = i" | (later) "i < i'" | (before) "i' < i" by linarith
    then show ?thesis
    proof cases
      case here
      then show ?thesis by (simp add: dtg'_rows dec1(5) p)
    next
      case later
      with sub [OF later] show ?thesis by (simp add: dtg'_rows dec1(5))
    next
      case before
      then show ?thesis by (simp add: dtg'_rows dec1(5))
    qed
  qed
  from enc1(1) dec1(1) res p
  have "fill_examples T i (p # ps) (enc, din, dtg) = Inr (enc', din', dtg')"
    by simp
  with enc'_shape E A B show ?case by (intro exI conjI allI)
qed

section \<open>The corpus and its tables\<close>

lemma corpus_ok_empty: "corpus_ok empty_corpus"
  by (simp add: corpus_ok_def empty_corpus_def)

lemma read_pairs_ok: "read_pairs ls C = Inr C' \<Longrightarrow> corpus_ok C \<Longrightarrow> corpus_ok C'"
proof (induction ls arbitrary: C)
  case Nil
  then show ?case by simp
next
  case (Cons line ls)
  from Cons.prems(1) obtain x_seq y_raw where
    fields: "str_split TAB line = [x_seq, y_raw]"
    by (auto split: list.splits)
  let ?C1 = "\<lparr>inputs = inputs C @ [x_seq], targets = targets C @ [TAB # y_raw @ [NEWLINE]],
               input_chars = add_chars x_seq (input_chars C),
               target_chars = add_chars (TAB # y_raw @ [NEWLINE]) (target_chars C)\<rparr>"
  from Cons.prems(1) fields have rest: "read_pairs ls ?C1 = Inr C'"
    by (simp add: Let_def)
  from Cons.prems(2) have "corpus_ok ?C1"
    by (auto simp: corpus_ok_def add_chars_union)
  from Cons.IH [OF rest this] show ?case .
qed

lemma get_pairs_ok: "get_pairs lines = Inr C \<Longrightarrow> corpus_ok C"
  unfolding get_pairs_def by (rule read_pairs_ok [OF _ corpus_ok_empty])

lemma py_max_Inr:
  "py_max xs = Inr m \<Longrightarrow> xs \<noteq> [] \<and> (\<forall>x\<in>set xs. x \<le> m)"
proof -
  assume a: "py_max xs = Inr m"
  then obtain x r where xs: "xs = x # r" and m: "m = fold max r x"
    by (auto simp: py_max_def split: list.splits)
  have "fold max r x = Max (set (x # r))" by (rule Max.set_eq_fold [symmetric])
  with xs m show ?thesis by simp
qed

lemma build_tables_fields:
  assumes "build_tables C = Inr T"
  shows "sorted_input_chars T = sorted_list_of_set (input_chars C)"
    and "sorted_target_chars T = sorted_list_of_set (target_chars C)"
    and "num_encoder_tokens T = length (sorted_input_chars T)"
    and "num_decoder_tokens T = length (sorted_target_chars T)"
    and "input_token_index T = token_index (sorted_input_chars T)"
    and "target_token_index T = token_index (sorted_target_chars T)"
    and "reverse_input_char_index T = reverse_index (input_token_index T)"
    and "reverse_target_char_index T = reverse_index (target_token_index T)"
    and "py_max (map length (inputs C)) = Inr (max_encoder_seq_length T)"
    and "py_max (map length (targets C)) = Inr (max_decoder_seq_length T)"
  using assms by (auto simp: build_tables_def Let_def split: sum.splits)

lemma prepare_parts:
  assumes "prepare lines = Inr (C, T, D)"
  shows "get_pairs lines = Inr C" and "build_tables C = Inr T" and "vectorize C T = Inr D"
  using assms by (auto simp: prepare_def split: sum.splits)

lemma token_index_known:
  assumes "distinct chars" and "c \<in> set chars"
  shows "\<exists>i<length chars. chars ! i = c \<and> getitem (token_index chars) c = Inr i
           \<and> getitem (reverse_index (token_index chars)) i = Inr c"
proof -
  from assms(2) obtain i where i: "i < length chars" "chars ! i = c"
    by (auto simp: in_set_conv_nth)
  with getitem_token_index [OF assms(1) i(1)] show ?thesis by auto
qed

lemma vocabulary_side:
  assumes "finite S" and "chars = sorted_list_of_set S" and "idx = token_index chars"
    and "rev_idx = reverse_index idx"
  shows "map fst idx = chars \<and> map snd idx = [0..<length chars]
       \<and> (\<forall>c\<in>S. \<exists>i<length chars. getitem idx c = Inr i \<and> getitem rev_idx i = Inr c)
       \<and> (\<forall>c. c \<notin> S \<longrightarrow> getitem idx c = Inl KeyError)"
proof -
  from assms(1,2) have d: "distinct chars" and s: "set chars = S" by simp_all
  from d assms(3) have z: "idx = zip chars [0..<length chars]" by (simp add: token_index_zip)
  then have "map fst idx = chars" "map snd idx = [0..<length chars]" by simp_all
  moreover have "\<forall>c\<in>S. \<exists>i<length chars. getitem idx c = Inr i \<and> getitem rev_idx i = Inr c"
    using token_index_known [OF d] s assms(3,4) by blast
  moreover have "\<forall>c. c \<notin> S \<longrightarrow> getitem idx c = Inl KeyError"
    using getitem_token_index_missing [OF d] s assms(3) by blast
  ultimately show ?thesis by blast
qed

lemma vectorize_rows:
  assumes ok: "corpus_ok C" and tables: "build_tables C = Inr T"
  shows "\<exists>D g. vectorize C T = Inr D
      \<and> has_shape (encoder_input_data D) (length (inputs C))
            (max_encoder_seq_length T) (num_encoder_tokens T)
      \<and> (\<forall>c\<in>target_chars C. getitem (target_token_index T) c = Inr (g c)
            \<and> g c < num_decoder_tokens T)
      \<and> (\<forall>i<length (targets C). \<forall>t<max_decoder_seq_length T.
            decoder_input_data D ! i ! t =
              (if t < length (targets C ! i)
               then (replicate (num_decoder_tokens T) 0)[g (targets C ! i ! t) := 1]
               else replicate (num_decoder_tokens T) 0))
      \<and> (\<forall>i<length (targets C). \<forall>t<max_decoder_seq_length T.
            decoder_target_data D ! i ! t =
              (if Suc t < length (targets C ! i)
               then (replicate (num_decoder_tokens T) 0)[g (targets C ! i ! Suc t) := 1]
               else replicate (num_decoder_tokens T) 0))"
proof -
  note F = build_tables_fields [OF tables]
  let ?n = "length (inputs C)"
  let ?me = "max_encoder_seq_length T" and ?md = "max_decoder_seq_length T"
  let ?we = "num_encoder_tokens T" and ?wd = "num_decoder_tokens T"
  let ?ps = "zip (inputs C) (targets C)"
  from ok have len: "length (targets C) = ?n"
    and ic: "input_chars C = \<Union> (set ` set (inputs C))"
    and tc: "target_chars C = \<Union> (set ` set (targets C))"
    by (simp_all add: corpus_ok_def)
  have fin: "finite (input_chars C)" "finite (target_chars C)"
    by (simp_all add: ic tc)
  from fin F(1,2) have d: "distinct (sorted_input_chars T)" "distinct (sorted_target_chars T)"
    and s: "set (sorted_input_chars T) = input_chars C"
           "set (sorted_target_chars T) = target_chars C"
    by simp_all
  define f where "f c = (case getitem (input_token_index T) c of Inr k \<Rightarrow> k | Inl e \<Rightarrow> 0)" for c
  define g where "g c = (case getitem (target_token_index T) c of Inr k \<Rightarrow> k | Inl e \<Rightarrow> 0)" for c
  have fk: "getitem (input_token_index T) c = Inr (f c) \<and> f c < ?we" if "c \<in> input_chars C" for c
    using token_index_known [OF d(1), of c] that s(1) F(3,5) by (auto simp: f_def)
  have gk: "getitem (target_token_index T) c = Inr (g c) \<and> g c < ?wd" if "c \<in> target_chars C" for c
    using token_index_known [OF d(2), of c] that s(2) F(4,6) by (auto simp: g_def)
  have in_ps: "fst p \<in> set (inputs C) \<and> snd p \<in> set (targets C)" if "p \<in> set ?ps" for p
  proof -
    obtain x y where p: "p = (x, y)" by (cases p)
    with that have "(x, y) \<in> set (zip (inputs C) (targets C))" by simp
    then have "x \<in> set (inputs C)" "y \<in> set (targets C)"
      by (rule set_zip_leftD, rule set_zip_rightD)
    with p show ?thesis by simp
  qed
  from py_max_Inr [OF F(9)] py_max_Inr [OF F(10)]
  have lens: "\<forall>p\<in>set ?ps. length (fst p) \<le> ?me \<and> length (snd p) \<le> ?md"
    using in_ps by auto
  have xk: "\<forall>p\<in>set ?ps. \<forall>c\<in>set (fst p).
      getitem (input_token_index T) c = Inr (f c) \<and> f c < ?we"
    using in_ps fk ic by blast
  have yk: "\<forall>p\<in>set ?ps. \<forall>c\<in>set (snd p).
      getitem (target_token_index T) c = Inr (g c) \<and> g c < ?wd"
    using in_ps gk tc by blast
  have room: "0 + length ?ps \<le> ?n" by simp
  from fill_examples_rows [OF has_shape_zeros has_shape_zeros has_shape_zeros room lens xk yk]
  obtain enc' din' dtg' where
    res: "fill_examples T 0 ?ps (np_zeros ?n ?me ?we, np_zeros ?n ?md ?wd, np_zeros ?n ?md ?wd)
            = Inr (enc', din', dtg')"
    and shape: "has_shape enc' ?n ?me ?we"
    and din': "\<And>i' t'. din' ! i' ! t' =
            (if 0 \<le> i' \<and> i' < 0 + length ?ps \<and> t' < length (snd (?ps ! (i' - 0)))
             then (np_zeros ?n ?md ?wd ! i' ! t')[g (snd (?ps ! (i' - 0)) ! t') := 1]
             else np_zeros ?n ?md ?wd ! i' ! t')"
    and dtg': "\<And>i' t'. dtg' ! i' ! t' =
            (if 0 \<le> i' \<and> i' < 0 + length ?ps \<and> Suc t' < length (snd (?ps ! (i' - 0)))
             then (np_zeros ?n ?md ?wd ! i' ! t')[g (snd (?ps ! (i' - 0)) ! Suc t') := 1]
             else np_zeros ?n ?md ?wd ! i' ! t')"
    by blast
  let ?D = "\<lparr>encoder_input_data = enc', decoder_input_data = din', decoder_target_data = dtg'\<rparr>"
  from res have v: "vectorize C T = Inr ?D"
    by (simp add: vectorize_def Let_def)
  have A: "\<forall>i<length (targets C). \<forall>t<?md. decoder_input_data ?D ! i ! t =
              (if t < length (targets C ! i)
               then (replicate ?wd 0)[g (targets C ! i ! t) := 1]
               else replicate ?wd 0)"
    using len by (simp add: din' np_zeros_row)
  have B: "\<forall>i<length (targets C). \<forall>t<?md. decoder_target_data ?D ! i ! t =
              (if Suc t < length (targets C ! i)
               then (replicate ?wd 0)[g (targets C ! i ! Suc t) := 1]
               else replicate ?wd 0)"
    using len by (simp add: dtg' np_zeros_row)
  have K: "\<forall>c\<in>target_chars C. getitem (target_token_index T) c = Inr (g c) \<and> g c < ?wd"
    using gk by blast
  from v shape K A B show ?thesis
    by (intro exI [of _ ?D] exI [of _ g] conjI) simp_all
qed

section \<open>Evaluating the small corpus\<close>

lemma get_pairs_demo: "get_pairs demo_lines = Inr demo_corpus"
  by (auto simp: get_pairs_def demo_lines_def demo_corpus_def num_samples_def empty_corpus_def
      TAB_def NEWLINE_def add_chars_def)

lemma build_tables_demo: "build_tables demo_corpus = Inr demo_tables"
  by (simp add: build_tables_def demo_corpus_def demo_tables_def py_max_def token_index_def
      reverse_index_def dict_def enumerate_py_def upt_rec Let_def numeral_eq_Suc)

lemma vectorize_demo: "vectorize demo_corpus demo_tables = Inr demo_data"
  by (simp add: vectorize_def demo_corpus_def demo_tables_def demo_data_def np_zeros_def
      getitem_def set_one_def numeral_eq_Suc)

lemma prepare_demo: "prepare demo_lines = Inr (demo_corpus, demo_tables, demo_data)"
  by (simp add: prepare_def get_pairs_demo build_tables_demo vectorize_demo)

lemma get_pairs_blank: "get_pairs blank_lines = Inr blank_corpus"
  by (auto simp: get_pairs_def blank_lines_def blank_corpus_def num_samples_def empty_corpus_def
      TAB_def NEWLINE_def add_chars_def)

lemma build_tables_blank: "build_tables blank_corpus = Inr blank_tables"
  by (simp add: build_tables_def blank_corpus_def blank_tables_def py_max_def token_index_def
      reverse_index_def dict_def enumerate_py_def upt_rec Let_def numeral_eq_Suc)

lemma vectorize_blank: "vectorize blank_corpus blank_tables = Inr blank_data"
  by (simp add: vectorize_def blank_corpus_def blank_tables_def blank_data_def np_zeros_def
      getitem_def set_one_def numeral_eq_Suc)

lemma prepare_empty: "prepare [] = Inl ValueError"
  by (simp add: prepare_def get_pairs_def empty_corpus_def build_tables_def py_max_def)

lemma py_max_member: "py_max xs = Inr m \<Longrightarrow> m \<in> set xs"
proof -
  assume a: "py_max xs = Inr m"
  then obtain x r where xs: "xs = x # r" and m: "m = fold max r x"
    by (auto simp: py_max_def split: list.splits)
  have "fold max r x = Max (set (x # r))" by (rule Max.set_eq_fold [symmetric])
  moreover have "Max (set (x # r)) \<in> set (x # r)" by (rule Max_in) simp_all
  ultimately show ?thesis using xs m by simp
qed

lemma zero_width_rows:
  assumes "has_shape a n 0 w"
  shows "a = replicate n []"
proof (rule replicate_eqI)
  from assms show "length a = n" by (simp add: has_shape_def)
  fix r assume "r \<in> set a"
  then obtain i where "i < length a" "a ! i = r" by (auto simp: in_set_conv_nth)
  with assms show "r = []" by (auto simp: has_shape_def)
qed

section \<open>The arg-max\<close>

lemma argmax_scan_first_max:
  assumes "length ps = i" and "best < i" and "ps ! best = v"
    and "\<forall>j<i. ps ! j \<le> v" and "\<forall>j<best. ps ! j < v"
  shows "argmax_scan xs i best v < length (ps @ xs)
       \<and> (\<forall>j<length (ps @ xs). (ps @ xs) ! j \<le> (ps @ xs) ! argmax_scan xs i best v)
       \<and> (\<forall>j<argmax_scan xs i best v. (ps @ xs) ! j < (ps @ xs) ! argmax_scan xs i best v)"
  using assms
proof (induction xs arbitrary: ps i best v)
  case Nil
  then show ?case by simp
next
  case (Cons x xs)
  let ?ps = "ps @ [x]"
  have len: "length ?ps = i + 1" using Cons.prems(1) by simp
  show ?case
  proof (cases "v < x")
    case True
    have a: "i < i + 1" by simp
    have b: "?ps ! i = x" using Cons.prems(1) by (auto simp: nth_append)
    have c: "\<forall>j<i + 1. ?ps ! j \<le> x"
      using Cons.prems(1,4) True by (auto simp: nth_append less_Suc_eq)
    have d: "\<forall>j<i. ?ps ! j < x"
      using Cons.prems(1,4) True by (auto simp: nth_append)
    from Cons.IH [OF len a b c d] True show ?thesis by simp
  next
    case False
    have a: "best < i + 1" using Cons.prems(2) by simp
    have b: "?ps ! best = v" using Cons.prems(1,2,3) by (simp add: nth_append)
    have c: "\<forall>j<i + 1. ?ps ! j \<le> v"
      using Cons.prems(1,4) False by (auto simp: nth_append less_Suc_eq)
    have d: "\<forall>j<best. ?ps ! j < v"
      using Cons.prems(1,2,5) by (auto simp: nth_append)
    from Cons.IH [OF len a b c d] False show ?thesis by simp
  qed
qed

lemma np_argmax_first_max:
  assumes "np_argmax xs = Inr i"
  shows "i < length xs \<and> (\<forall>j<length xs. xs ! j \<le> xs ! i) \<and> (\<forall>j<i. xs ! j < xs ! i)"
proof -
  from assms obtain x r where xs: "xs = x # r" and i: "i = argmax_scan r 1 0 x"
    by (auto simp: np_argmax_def split: list.splits)
  have "argmax_scan r 1 0 x < length ([x] @ r)
       \<and> (\<forall>j<length ([x] @ r). ([x] @ r) ! j \<le> ([x] @ r) ! argmax_scan r 1 0 x)
       \<and> (\<forall>j<argmax_scan r 1 0 x. ([x] @ r) ! j < ([x] @ r) ! argmax_scan r 1 0 x)"
    by (rule argmax_scan_first_max) simp_all
  with xs i show ?thesis by simp
qed

lemma np_argmax_nonempty: "xs \<noteq> [] \<Longrightarrow> \<exists>i. np_argmax xs = Inr i"
  by (cases xs) (simp_all add: np_argmax_def)

section \<open>The decoding loop\<close>

text \<open>
  The recursion equations of the loop are unfolded one step at a time, at a given state.
\<close>

declare decode_loop.simps [simp del] loop_iterations.simps [simp del]

lemma loop_body_step:
  assumes "loop_body T N s = Inr s'"
  shows "\<exists>c. decoded_sentence s' = decoded_sentence s @ [c]
       \<and> stop_condition s' = (c = NEWLINE
            \<or> max_decoder_seq_length T < length (decoded_sentence s') \<or> stop_condition s)"
  using assms
  by (auto simp: loop_body_def Let_def split: prod.splits sum.splits if_splits)

lemma loop_iterations_bound:
  "\<not> stop_condition s \<Longrightarrow> length (decoded_sentence s) \<le> max_decoder_seq_length T \<Longrightarrow>
   loop_iterations T N s \<le> max_decoder_seq_length T + 1 - length (decoded_sentence s)"
proof (induction T N s rule: loop_iterations.induct)
  case (1 T N s)
  show ?case
  proof (cases "loop_body T N s")
    case (Inl e)
    with "1.prems" show ?thesis by (simp add: loop_iterations.simps [of T N s])
  next
    case (Inr s1)
    from loop_body_step [OF Inr] obtain c where
      dec: "decoded_sentence s1 = decoded_sentence s @ [c]" and
      stop: "stop_condition s1 = (c = NEWLINE
            \<or> max_decoder_seq_length T < length (decoded_sentence s1) \<or> stop_condition s)"
      by blast
    show ?thesis
    proof (cases "stop_condition s1")
      case True
      with Inr "1.prems" show ?thesis
        by (simp add: loop_iterations.simps [of T N s] loop_iterations.simps [of T N s1])
    next
      case False
      with stop have small: "length (decoded_sentence s1) \<le> max_decoder_seq_length T" by simp
      from "1.IH" [OF "1.prems"(1) Inr False small] dec Inr "1.prems" small
      show ?thesis by (simp add: loop_iterations.simps [of T N s])
    qed
  qed
qed

lemma decode_loop_result:
  "decode_loop T N s = Inr s' \<Longrightarrow> \<not> stop_condition s \<Longrightarrow>
   length (decoded_sentence s) \<le> max_decoder_seq_length T \<Longrightarrow>
   \<exists>ys. ys \<noteq> [] \<and> decoded_sentence s' = decoded_sentence s @ ys
      \<and> loop_iterations T N s = length ys
      \<and> NEWLINE \<notin> set (butlast ys)
      \<and> length (decoded_sentence s') \<le> max_decoder_seq_length T + 1
      \<and> (last ys = NEWLINE \<or> length (decoded_sentence s') = max_decoder_seq_length T + 1)"
proof (induction T N s rule: decode_loop.induct)
  case (1 T N s)
  from "1.prems"(1,2) obtain s1 where body: "loop_body T N s = Inr s1"
    and rest: "decode_loop T N s1 = Inr s'"
    by (auto simp: decode_loop.simps [of T N s] split: sum.splits)
  from loop_body_step [OF body] obtain c where
    dec: "decoded_sentence s1 = decoded_sentence s @ [c]" and
    stop0: "stop_condition s1 = (c = NEWLINE
            \<or> max_decoder_seq_length T < length (decoded_sentence s1) \<or> stop_condition s)"
    by blast
  from stop0 "1.prems"(2) have
    stop: "stop_condition s1 = (c = NEWLINE
            \<or> max_decoder_seq_length T < length (decoded_sentence s1))"
    by simp
  have it: "loop_iterations T N s = 1 + loop_iterations T N s1"
    using body "1.prems"(2) by (simp add: loop_iterations.simps [of T N s])
  show ?case
  proof (cases "stop_condition s1")
    case True
    with rest have s': "s' = s1" by (simp add: decode_loop.simps [of T N s1])
    from True have "loop_iterations T N s1 = 0" by (simp add: loop_iterations.simps [of T N s1])
    with it s' dec stop True "1.prems"(3) show ?thesis
      by (intro exI [of _ "[c]"]) auto
  next
    case False
    with stop have small: "length (decoded_sentence s1) \<le> max_decoder_seq_length T"
      and c: "c \<noteq> NEWLINE" by auto
    from "1.IH" [OF "1.prems"(2) body rest False small]
    obtain ys where ys: "ys \<noteq> []" "decoded_sentence s' = decoded_sentence s1 @ ys"
      "loop_iterations T N s1 = length ys" "NEWLINE \<notin> set (butlast ys)"
      "length (decoded_sentence s') \<le> max_decoder_seq_length T + 1"
      "last ys = NEWLINE \<or> length (decoded_sentence s') = max_decoder_seq_length T + 1"
      by blast
    with it dec c show ?thesis
      by (intro exI [of _ "c # ys"]) auto
  qed
qed

lemma before_loop_state:
  "before_loop T N sentence = Inr s0 \<Longrightarrow> decoded_sentence s0 = [] \<and> \<not> stop_condition s0"
  by (auto simp: before_loop_def split: sum.splits)

lemma decode_sentence_result:
  assumes "decode_sentence T N sentence = Inr out"
  shows "out \<noteq> [] \<and> decode_iterations T N sentence = length out
       \<and> NEWLINE \<notin> set (butlast out)
       \<and> length out \<le> max_decoder_seq_length T + 1
       \<and> (last out = NEWLINE \<or> length out = max_decoder_seq_length T + 1)"
proof -
  from assms obtain s0 s' where start: "before_loop T N sentence = Inr s0"
    and loop: "decode_loop T N s0 = Inr s'" and out: "out = decoded_sentence s'"
    by (auto simp: decode_sentence_def split: sum.splits)
  from before_loop_state [OF start] have s0: "decoded_sentence s0 = []" "\<not> stop_condition s0"
    by simp_all
  from decode_loop_result [OF loop s0(2)] s0(1) out start show ?thesis
    by (auto simp: decode_iterations_def)
qed

lemma decode_iterations_bound:
  "decode_iterations T N sentence \<le> max_decoder_seq_length T + 1"
proof (cases "before_loop T N sentence")
  case (Inl e)
  then show ?thesis by (simp add: decode_iterations_def)
next
  case (Inr s0)
  from before_loop_state [OF Inr] have "decoded_sentence s0 = []" "\<not> stop_condition s0"
    by simp_all
  with loop_iterations_bound [of s0 T N] Inr show ?thesis
    by (simp add: decode_iterations_def)
qed

lemma prepare_target_side:
  assumes "prepare lines = Inr (C, T, D)"
  shows "0 < num_decoder_tokens T"
    and "\<exists>k<num_decoder_tokens T. getitem (target_token_index T) TAB = Inr k"
    and "\<forall>i<num_decoder_tokens T. \<exists>c. getitem (reverse_target_char_index T) i = Inr c"
proof -
  note parts = prepare_parts [OF assms]
  note ok = get_pairs_ok [OF parts(1)]
  note F = build_tables_fields [OF parts(2)]
  from ok have tc: "target_chars C = \<Union> (set ` set (targets C))"
    and wrapped: "\<forall>y\<in>set (targets C). \<exists>r. y = TAB # r @ [NEWLINE]"
    by (simp_all add: corpus_ok_def)
  have fin: "finite (target_chars C)" by (simp add: tc)
  with F(2) have d: "distinct (sorted_target_chars T)"
    and s: "set (sorted_target_chars T) = target_chars C"
    by simp_all
  from py_max_Inr [OF F(10)] obtain y where y: "y \<in> set (targets C)"
    by (cases "targets C") auto
  with wrapped have "TAB \<in> set y" by auto
  with y tc have tab: "TAB \<in> set (sorted_target_chars T)" by (auto simp: s)
  from token_index_known [OF d tab] F(4,6)
  show k: "\<exists>k<num_decoder_tokens T. getitem (target_token_index T) TAB = Inr k"
    by auto
  then show "0 < num_decoder_tokens T" by auto
  show "\<forall>i<num_decoder_tokens T. \<exists>c. getitem (reverse_target_char_index T) i = Inr c"
    using getitem_token_index(2) [OF d] F(4,6,8) by auto
qed

lemma loop_body_no_error:
  assumes "0 < num_decoder_tokens T"
    and "\<forall>i<num_decoder_tokens T. \<exists>c. getitem (reverse_target_char_index T) i = Inr c"
    and "\<forall>tseq st. length (fst (decoder_model N tseq st)) = num_decoder_tokens T"
  shows "\<exists>s1. loop_body T N s = Inr s1"
proof -
  obtain out hc where dm: "decoder_model N (target_seq s) (states_value s) = (out, hc)"
    by (cases "decoder_model N (target_seq s) (states_value s)")
  with assms(3) have len: "length out = num_decoder_tokens T"
    by (metis fst_conv)
  with assms(1) have "out \<noteq> []" by auto
  from np_argmax_nonempty [OF this] obtain i where i: "np_argmax out = Inr i" by blast
  from np_argmax_first_max [OF i] len have small: "i < num_decoder_tokens T" by simp
  with assms(2) obtain c where c: "getitem (reverse_target_char_index T) i = Inr c" by blast
  from set_one_ok [OF has_shape_zeros, of 0 1 0 1 i "num_decoder_tokens T"] small
  obtain tseq where "set_one (np_zeros 1 1 (num_decoder_tokens T)) 0 0 i = Inr tseq"
    by auto
  with dm i c show ?thesis by (simp add: loop_body_def Let_def)
qed

lemma decode_loop_no_error:
  assumes "0 < num_decoder_tokens T"
    and "\<forall>i<num_decoder_tokens T. \<exists>c. getitem (reverse_target_char_index T) i = Inr c"
    and "\<forall>tseq st. length (fst (decoder_model N tseq st)) = num_decoder_tokens T"
  shows "\<exists>s'. decode_loop T N s = Inr s'"
  using assms
proof (induction T N s rule: decode_loop.induct)
  case (1 T N s)
  show ?case
  proof (cases "stop_condition s")
    case True
    then show ?thesis by (simp add: decode_loop.simps [of T N s])
  next
    case False
    from loop_body_no_error [OF "1.prems"] obtain s1 where body: "loop_body T N s = Inr s1"
      by blast
    from "1.IH" [OF False body "1.prems"] obtain s' where "decode_loop T N s1 = Inr s'"
      by blast
    with False body show ?thesis by (simp add: decode_loop.simps [of T N s])
  qed
qed

lemma prepare_source_side:
  assumes "prepare lines = Inr (C, T, D)"
  shows "\<forall>c\<in>input_chars C. \<exists>k<num_encoder_tokens T. getitem (input_token_index T) c = Inr k"
    and "\<forall>c. c \<notin> input_chars C \<longrightarrow> getitem (input_token_index T) c = Inl KeyError"
proof -
  note parts = prepare_parts [OF assms]
  note ok = get_pairs_ok [OF parts(1)]
  note F = build_tables_fields [OF parts(2)]
  from ok have "finite (input_chars C)" by (simp add: corpus_ok_def)
  from vocabulary_side [OF this F(1,5,7)] F(3)
  show "\<forall>c\<in>input_chars C. \<exists>k<num_encoder_tokens T. getitem (input_token_index T) c = Inr k"
    and "\<forall>c. c \<notin> input_chars C \<longrightarrow> getitem (input_token_index T) c = Inl KeyError"
    by auto
qed

lemma fill_known_prefix:
  assumes "\<forall>c\<in>S. \<exists>k<w. getitem idx c = Inr k" and "set pre \<subseteq> S" and "length pre \<le> m"
  shows "\<exists>a. fill_encoder idx 0 0 pre (np_zeros 1 m w) = Inr a \<and> has_shape a 1 m w"
proof -
  define f where "f c = (case getitem idx c of Inr k \<Rightarrow> k | Inl e \<Rightarrow> 0)" for c
  have keys: "getitem idx c = Inr (f c) \<and> f c < w" if "c \<in> set pre" for c
  proof -
    from assms(1,2) that obtain k where "k < w" "getitem idx c = Inr k" by blast
    then show ?thesis by (simp add: f_def)
  qed
  have room: "0 + length pre \<le> m" using assms(3) by simp
  have first: "(0::nat) < 1" by simp
  have "\<exists>a'. fill_encoder idx 0 0 pre (np_zeros 1 m w) = Inr a' \<and> has_shape a' 1 m w
      \<and> (\<forall>i' t'. a' ! i' ! t' =
            (if i' = 0 \<and> 0 \<le> t' \<and> t' < 0 + length pre
             then (np_zeros 1 m w ! 0 ! t')[f (pre ! (t' - 0)) := 1]
             else np_zeros 1 m w ! i' ! t'))"
    by (rule fill_encoder_rows [OF has_shape_zeros first room keys])
  then show ?thesis by blast
qed

lemma input_seq_unknown:
  assumes known: "\<forall>c\<in>S. \<exists>k<num_encoder_tokens T. getitem (input_token_index T) c = Inr k"
    and unknown: "getitem (input_token_index T) c = Inl KeyError"
    and pre: "set pre \<subseteq> S"
  shows "input_seq T (pre @ c # post) =
           (if length pre \<le> max_encoder_seq_length T then Inl KeyError else Inl IndexError)"
proof (cases "length pre \<le> max_encoder_seq_length T")
  case True
  from fill_known_prefix [OF known pre True] obtain a where
    "fill_encoder (input_token_index T) 0 0 pre
       (np_zeros 1 (max_encoder_seq_length T) (num_encoder_tokens T)) = Inr a"
    by blast
  with unknown True show ?thesis
    by (simp add: input_seq_def fill_encoder_append)
next
  case False
  let ?m = "max_encoder_seq_length T"
  from False have long: "?m < length pre" by simp
  then obtain c' rest where split: "drop ?m pre = c' # rest"
    by (cases "drop ?m pre") auto
  have "set (take ?m pre) \<subseteq> S" using pre by (meson set_take_subset subset_trans)
  moreover have "length (take ?m pre) \<le> ?m" by simp
  ultimately obtain a where
    a: "fill_encoder (input_token_index T) 0 0 (take ?m pre)
       (np_zeros 1 ?m (num_encoder_tokens T)) = Inr a"
    and shape: "has_shape a 1 ?m (num_encoder_tokens T)"
    using fill_known_prefix [OF known] by blast
  have "c' \<in> set pre" using split by (metis in_set_dropD list.set_intros(1))
  with pre known obtain k where k: "getitem (input_token_index T) c' = Inr k" by blast
  have oob: "set_one a 0 ?m k = Inl IndexError"
    by (rule set_one_out_of_bounds [OF shape]) simp_all
  have eq: "pre @ c # post = take ?m pre @ (c' # rest @ c # post)"
    using split by (metis append_Cons append_assoc append_take_drop_id)
  have len: "length (take ?m pre) = ?m" using long by simp
  have "fill_encoder (input_token_index T) 0 0 (take ?m pre @ (c' # rest @ c # post))
       (np_zeros 1 ?m (num_encoder_tokens T)) = Inl IndexError"
    using a k oob len by (simp add: fill_encoder_append del: One_nat_def)
  then have "input_seq T (pre @ c # post) = Inl IndexError"
    unfolding input_seq_def eq [symmetric] .
  with False show ?thesis by simp
qed

text \<open>The definitions unfolded to run the decoder on a concrete input.\<close>

lemmas demo_eval = decode_sentence_def decode_iterations_def before_loop_def input_seq_def
  loop_body_def demo_tables_def getitem_def set_one_def np_zeros_def np_argmax_def
  TAB_def NEWLINE_def Let_def decode_loop.simps loop_iterations.simps

section \<open>The vocabulary index\<close>

text \<open>
  C6. For each side of the corpus, the sorted character list is the sorted enumeration
  of the set of characters seen on that side; the token index lists exactly these
  characters with the indices \<open>0, 1, ..., N - 1\<close> in this order (a contiguous range
  without duplicates); and for every character \<open>c\<close> seen, looking up \<open>c\<close> and then
  looking up the result in the reverse index gives \<open>c\<close> back. Everything is a function
  of the lines read, so equal data gives equal tables.
\<close>

theorem vocabulary_index_bijective:
  assumes "prepare lines = Inr (C, T, D)"
  shows "(sorted_input_chars T = sorted_list_of_set (\<Union> (set ` set (inputs C)))
          \<and> map fst (input_token_index T) = sorted_input_chars T
          \<and> map snd (input_token_index T) = [0..<num_encoder_tokens T]
          \<and> (\<forall>c\<in>\<Union> (set ` set (inputs C)). \<exists>i<num_encoder_tokens T.
                getitem (input_token_index T) c = Inr i
                \<and> getitem (reverse_input_char_index T) i = Inr c))
       \<and> (sorted_target_chars T = sorted_list_of_set (\<Union> (set ` set (targets C)))
          \<and> map fst (target_token_index T) = sorted_target_chars T
          \<and> map snd (target_token_index T) = [0..<num_decoder_tokens T]
          \<and> (\<forall>c\<in>\<Union> (set ` set (targets C)). \<exists>i<num_decoder_tokens T.
                getitem (target_token_index T) c = Inr i
                \<and> getitem (reverse_target_char_index T) i = Inr c))"
proof -
  note parts = prepare_parts [OF assms]
  note ok = get_pairs_ok [OF parts(1)]
  note F = build_tables_fields [OF parts(2)]
  from ok have ic: "input_chars C = \<Union> (set ` set (inputs C))"
    and tc: "target_chars C = \<Union> (set ` set (targets C))"
    by (simp_all add: corpus_ok_def)
  have fin: "finite (\<Union> (set ` set (inputs C)))" "finite (\<Union> (set ` set (targets C)))"
    by simp_all
  from vocabulary_side [OF fin(1) F(1) [unfolded ic] F(5) F(7)] F(3)
  have src: "sorted_input_chars T = sorted_list_of_set (\<Union> (set ` set (inputs C)))
          \<and> map fst (input_token_index T) = sorted_input_chars T
          \<and> map snd (input_token_index T) = [0..<num_encoder_tokens T]
          \<and> (\<forall>c\<in>\<Union> (set ` set (inputs C)). \<exists>i<num_encoder_tokens T.
                getitem (input_token_index T) c = Inr i
                \<and> getitem (reverse_input_char_index T) i = Inr c)"
    using F(1) ic by simp
  from vocabulary_side [OF fin(2) F(2) [unfolded tc] F(6) F(8)] F(4)
  have tgt: "sorted_target_chars T = sorted_list_of_set (\<Union> (set ` set (targets C)))
          \<and> map fst (target_token_index T) = sorted_target_chars T
          \<and> map snd (target_token_index T) = [0..<num_decoder_tokens T]
          \<and> (\<forall>c\<in>\<Union> (set ` set (targets C)). \<exists>i<num_decoder_tokens T.
                getitem (target_token_index T) c = Inr i
                \<and> getitem (reverse_target_char_index T) i = Inr c)"
    using F(2) tc by simp
  from src tgt show ?thesis by (rule conjI)
qed

theorem vocabulary_index_bijective_witness:
  "prepare demo_lines = Inr (demo_corpus, demo_tables, demo_data)
   \<and> map fst (target_token_index demo_tables) = [9, 10, 97, 98]
   \<and> map snd (target_token_index demo_tables) = [0, 1, 2, 3]
   \<and> getitem (target_token_index demo_tables) 97 = Inr 2
   \<and> getitem (reverse_target_char_index demo_tables) 2 = Inr 97"
  using vocabulary_index_bijective [OF prepare_demo] prepare_demo
  by (simp add: demo_tables_def getitem_def)

section \<open>The training arrays\<close>

text \<open>
  C2. For every training example \<open>i\<close> and time step \<open>t\<close> of the arrays, the row
  \<open>decoder_target_data[i, t]\<close> equals the row \<open>decoder_input_data[i, t + 1]\<close> when
  \<open>t + 1\<close> is within the length of the target sequence of example \<open>i\<close>, and is
  all zeros otherwise.
\<close>

theorem decoder_target_shifted:
  assumes "prepare lines = Inr (C, T, D)"
    and "i < length (targets C)" and "t < max_decoder_seq_length T"
  shows "decoder_target_data D ! i ! t =
           (if t + 1 < length (targets C ! i) then decoder_input_data D ! i ! (t + 1)
            else replicate (num_decoder_tokens T) 0)"
proof -
  note parts = prepare_parts [OF assms(1)]
  note ok = get_pairs_ok [OF parts(1)]
  from vectorize_rows [OF ok parts(2)] parts(3)
  obtain g where
    din: "\<forall>i<length (targets C). \<forall>t<max_decoder_seq_length T.
            decoder_input_data D ! i ! t =
              (if t < length (targets C ! i)
               then (replicate (num_decoder_tokens T) 0)[g (targets C ! i ! t) := 1]
               else replicate (num_decoder_tokens T) 0)"
    and dtg: "\<forall>i<length (targets C). \<forall>t<max_decoder_seq_length T.
            decoder_target_data D ! i ! t =
              (if Suc t < length (targets C ! i)
               then (replicate (num_decoder_tokens T) 0)[g (targets C ! i ! Suc t) := 1]
               else replicate (num_decoder_tokens T) 0)"
    by auto
  note F = build_tables_fields [OF parts(2)]
  from assms(2) have "length (targets C ! i) \<in> set (map length (targets C))" by simp
  with py_max_Inr [OF F(10)] have bound: "length (targets C ! i) \<le> max_decoder_seq_length T"
    by blast
  show ?thesis
  proof (cases "t + 1 < length (targets C ! i)")
    case True
    with bound have "Suc t < max_decoder_seq_length T" by simp
    with din assms(2) True have "decoder_input_data D ! i ! Suc t =
        (replicate (num_decoder_tokens T) 0)[g (targets C ! i ! Suc t) := 1]"
      by simp
    moreover from dtg assms(2,3) True have "decoder_target_data D ! i ! t =
        (replicate (num_decoder_tokens T) 0)[g (targets C ! i ! Suc t) := 1]"
      by simp
    ultimately show ?thesis using True by simp
  next
    case False
    with dtg assms(2,3) show ?thesis by simp
  qed
qed

theorem decoder_target_shifted_witness:
  "prepare demo_lines = Inr (demo_corpus, demo_tables, demo_data)
   \<and> (0::nat) < length (targets demo_corpus)
   \<and> (1::nat) < max_decoder_seq_length demo_tables
   \<and> decoder_target_data demo_data ! 0 ! 1 = decoder_input_data demo_data ! 0 ! 2
   \<and> decoder_target_data demo_data ! 0 ! 1 = [0, 0, 0, 1]"
proof -
  have i: "0 < length (targets demo_corpus)"
    by (simp add: demo_corpus_def)
  have t: "1 < max_decoder_seq_length demo_tables"
    by (simp add: demo_tables_def)
  from decoder_target_shifted [OF prepare_demo i t] prepare_demo i t
  show ?thesis
    by (simp add: demo_corpus_def demo_data_def)
qed

text \<open>
  C7, as the code has it. No statement of the notebook checks the size of an alphabet.
  Once the lines are read, building the tables fails only for the empty corpus, with
  the \<open>ValueError\<close> of \<open>max\<close> on an empty list, before any array is allocated.
  For every other corpus the vectorization raises nothing; when the source alphabet
  is empty it allocates and returns an encoder array without positions.
\<close>

theorem zero_alphabet_vectorized:
  assumes "get_pairs lines = Inr C"
  shows "(inputs C = [] \<longrightarrow> build_tables C = Inl ValueError)
       \<and> (inputs C \<noteq> [] \<longrightarrow>
            (\<exists>T D. build_tables C = Inr T \<and> vectorize C T = Inr D
               \<and> (num_encoder_tokens T = 0 \<longrightarrow>
                     encoder_input_data D = replicate (length (inputs C)) [])))"
proof (intro conjI impI)
  assume "inputs C = []"
  then show "build_tables C = Inl ValueError"
    by (simp add: build_tables_def py_max_def)
next
  assume nonempty: "inputs C \<noteq> []"
  note ok = get_pairs_ok [OF assms]
  from ok nonempty have "targets C \<noteq> []" by (auto simp: corpus_ok_def)
  with nonempty obtain me md where "py_max (map length (inputs C)) = Inr me"
    and "py_max (map length (targets C)) = Inr md"
    by (cases "inputs C"; cases "targets C") (simp_all add: py_max_def)
  then obtain T where T: "build_tables C = Inr T"
    by (simp add: build_tables_def Let_def)
  note F = build_tables_fields [OF T]
  from vectorize_rows [OF ok T] obtain D where D: "vectorize C T = Inr D"
    and shape: "has_shape (encoder_input_data D) (length (inputs C))
            (max_encoder_seq_length T) (num_encoder_tokens T)"
    by blast
  have "encoder_input_data D = replicate (length (inputs C)) []" if zero: "num_encoder_tokens T = 0"
  proof -
    from ok have ic: "input_chars C = \<Union> (set ` set (inputs C))" by (simp add: corpus_ok_def)
    then have "finite (input_chars C)" by simp
    with F(1,3) zero have "input_chars C = {}" by simp
    with ic have "\<forall>x\<in>set (inputs C). x = []" by auto
    with py_max_member [OF F(9)] have "max_encoder_seq_length T = 0" by auto
    with shape show ?thesis by (simp add: zero_width_rows)
  qed
  then have "num_encoder_tokens T = 0 \<longrightarrow>
      encoder_input_data D = replicate (length (inputs C)) []"
    by simp
  with T D show "\<exists>T D. build_tables C = Inr T \<and> vectorize C T = Inr D
               \<and> (num_encoder_tokens T = 0 \<longrightarrow>
                     encoder_input_data D = replicate (length (inputs C)) [])"
    by (intro exI [of _ T] exI [of _ D]) simp
qed

theorem zero_alphabet_vectorized_witness:
  "get_pairs [] = Inr empty_corpus
   \<and> inputs empty_corpus = []
   \<and> build_tables empty_corpus = Inl ValueError
   \<and> get_pairs blank_lines = Inr blank_corpus
   \<and> inputs blank_corpus \<noteq> []
   \<and> build_tables blank_corpus = Inr blank_tables
   \<and> vectorize blank_corpus blank_tables = Inr blank_data
   \<and> num_encoder_tokens blank_tables = 0
   \<and> encoder_input_data blank_data = replicate (length (inputs blank_corpus)) []"
proof -
  have none: "get_pairs [] = Inr empty_corpus"
    by (simp add: get_pairs_def)
  have "inputs empty_corpus = []"
    by (simp add: empty_corpus_def)
  with zero_alphabet_vectorized [OF none] none
  have "get_pairs [] = Inr empty_corpus \<and> inputs empty_corpus = []
      \<and> build_tables empty_corpus = Inl ValueError"
    by simp
  with zero_alphabet_vectorized [OF get_pairs_blank]
    get_pairs_blank build_tables_blank vectorize_blank
  show ?thesis
    by (simp add: blank_corpus_def blank_tables_def blank_data_def)
qed

text \<open>
  The corpus of the line \<open><TAB>a\<close> has a source alphabet of size zero; the cells run
  to the end and the encoder array is \<open>np.zeros((1, 0, 0))\<close>.
\<close>

theorem zero_width_tensor_counterexample:
  "prepare blank_lines = Inr (blank_corpus, blank_tables, blank_data)
   \<and> num_encoder_tokens blank_tables = 0
   \<and> encoder_input_data blank_data = np_zeros 1 0 0"
proof -
  have "prepare blank_lines = Inr (blank_corpus, blank_tables, blank_data)"
    by (simp add: prepare_def get_pairs_blank build_tables_blank vectorize_blank)
  then show ?thesis
    by (simp add: blank_tables_def blank_data_def np_zeros_def)
qed

section \<open>The greedy decoder\<close>

text \<open>
  C5. In every execution of the loop body that completes, the sampled index is a
  position of the maximum of the output distribution and every earlier position holds
  a strictly smaller value: among tied maxima the lowest index is taken. The appended
  character and the next one-hot input are those of this index; being a function of
  the distribution, the choice is the same for the same values.
\<close>

theorem greedy_choice_lowest_index:
  assumes "loop_body T N s = Inr s'"
  shows "\<exists>i. np_argmax (fst (decoder_model N (target_seq s) (states_value s))) = Inr i
      \<and> i < length (fst (decoder_model N (target_seq s) (states_value s)))
      \<and> (\<forall>j<length (fst (decoder_model N (target_seq s) (states_value s))).
            fst (decoder_model N (target_seq s) (states_value s)) ! j
              \<le> fst (decoder_model N (target_seq s) (states_value s)) ! i)
      \<and> (\<forall>j<i. fst (decoder_model N (target_seq s) (states_value s)) ! j
              < fst (decoder_model N (target_seq s) (states_value s)) ! i)
      \<and> getitem (reverse_target_char_index T) i = Inr (last (decoded_sentence s'))
      \<and> set_one (np_zeros 1 1 (num_decoder_tokens T)) 0 0 i = Inr (target_seq s')"
proof -
  let ?out = "fst (decoder_model N (target_seq s) (states_value s))"
  from assms obtain i where i: "np_argmax ?out = Inr i"
    and c: "getitem (reverse_target_char_index T) i = Inr (last (decoded_sentence s'))"
    and t: "set_one (np_zeros 1 1 (num_decoder_tokens T)) 0 0 i = Inr (target_seq s')"
    by (auto simp: loop_body_def Let_def split: prod.splits sum.splits)
  from np_argmax_first_max [OF i] i c t show ?thesis by blast
qed

theorem greedy_choice_lowest_index_witness:
  "loop_body demo_tables tie_nets tie_state
     = Inr \<lparr>target_seq = [[[0, 1, 0, 0]]], states_value = 1,
            decoded_sentence = [10], stop_condition = True\<rparr>
   \<and> np_argmax [1 / 10, 2 / 5, 1 / 10, 2 / 5] = Inr 1"
proof -
  have step: "loop_body demo_tables tie_nets tie_state
     = Inr \<lparr>target_seq = [[[0, 1, 0, 0]]], states_value = 1,
            decoded_sentence = [10], stop_condition = True\<rparr>"
    by (simp add: demo_eval tie_nets_def tie_state_def eval_nat_numeral)
  from greedy_choice_lowest_index [OF step] step show ?thesis
    by (simp add: tie_nets_def tie_state_def np_argmax_def)
qed

text \<open>
  C3. The loop body is executed at most \<open>max_decoder_seq_length + 1\<close> times in a call
  of \<open>decode_sentence\<close> (the loop is a total function: it cannot run forever). A returned
  string ends with the end marker or is longer than \<open>max_decoder_seq_length\<close>: the
  two checks are the only ways out. With the tables of a corpus and a decoder whose
  output has one value per target character, no statement of the loop raises, so the
  loop ends in a state whose stop flag is set.
\<close>

theorem decode_sentence_bounded:
  "decode_iterations T N sentence \<le> max_decoder_seq_length T + 1
   \<and> (\<forall>out. decode_sentence T N sentence = Inr out \<longrightarrow>
         last out = NEWLINE \<or> max_decoder_seq_length T < length out)
   \<and> (\<forall>lines C D s0. prepare lines = Inr (C, T, D) \<longrightarrow>
         (\<forall>tseq st. length (fst (decoder_model N tseq st)) = num_decoder_tokens T) \<longrightarrow>
         before_loop T N sentence = Inr s0 \<longrightarrow>
         (\<exists>s'. decode_loop T N s0 = Inr s' \<and> stop_condition s'))"
proof (intro conjI allI impI)
  show "decode_iterations T N sentence \<le> max_decoder_seq_length T + 1"
    by (rule decode_iterations_bound)
next
  fix out assume "decode_sentence T N sentence = Inr out"
  from decode_sentence_result [OF this]
  show "last out = NEWLINE \<or> max_decoder_seq_length T < length out" by auto
next
  fix lines C D and s0 :: "'a loop_state"
  assume built: "prepare lines = Inr (C, T, D)"
    and shape: "\<forall>tseq st. length (fst (decoder_model N tseq st)) = num_decoder_tokens T"
  note side = prepare_target_side [OF built]
  from decode_loop_no_error [OF side(1,3) shape] obtain s' where
    loop: "decode_loop T N s0 = Inr s'" by blast
  have "stop_condition s'" if "decode_loop T N s = Inr s'" for s
    using that
  proof (induction T N s rule: decode_loop.induct)
    case (1 T N s)
    then show ?case
      by (cases "stop_condition s")
        (auto simp: decode_loop.simps [of T N s] split: sum.splits)
  qed
  with loop show "\<exists>s'. decode_loop T N s0 = Inr s' \<and> stop_condition s'" by blast
qed

theorem decode_sentence_bounded_witness:
  "decode_iterations demo_tables (count_nets 5) [98] \<le> max_decoder_seq_length demo_tables + 1
   \<and> decode_sentence demo_tables (count_nets 5) [98] = Inr [97, 97, 97, 97, 97, 10]
   \<and> last [97, 97, 97, 97, 97, 10] = NEWLINE
   \<and> prepare demo_lines = Inr (demo_corpus, demo_tables, demo_data)
   \<and> (\<forall>tseq st. length (fst (decoder_model (count_nets 5) tseq st))
          = num_decoder_tokens demo_tables)
   \<and> before_loop demo_tables (count_nets 5) [98]
        = Inr \<lparr>target_seq = [[[1, 0, 0, 0]]], states_value = 0,
               decoded_sentence = [], stop_condition = False\<rparr>
   \<and> decode_loop demo_tables (count_nets 5)
          \<lparr>target_seq = [[[1, 0, 0, 0]]], states_value = 0,
             decoded_sentence = [], stop_condition = False\<rparr>
        = Inr \<lparr>target_seq = [[[0, 1, 0, 0]]], states_value = 6,
               decoded_sentence = [97, 97, 97, 97, 97, 10], stop_condition = True\<rparr>"
  using decode_sentence_bounded [of demo_tables "count_nets 5" "[98]"] prepare_demo
  by (simp add: demo_eval count_nets_def eval_nat_numeral)

text \<open>
  C4, as the code has it. The stop test is \<open>len(decoded_sentence) > max_decoder_seq_length\<close>,
  so the body is executed at most \<open>max_decoder_seq_length + 1\<close> times, once for
  every character of the returned string.
\<close>

theorem loop_body_executions:
  "decode_iterations T N sentence \<le> max_decoder_seq_length T + 1
   \<and> (\<forall>out. decode_sentence T N sentence = Inr out \<longrightarrow>
         decode_iterations T N sentence = length out)"
  using decode_iterations_bound [of T N sentence] decode_sentence_result [of T N sentence]
  by auto

theorem loop_body_executions_witness:
  "decode_iterations demo_tables uniform_nets [98] \<le> max_decoder_seq_length demo_tables + 1
   \<and> decode_sentence demo_tables uniform_nets [98] = Inr [9, 9, 9, 9, 9, 9, 9]
   \<and> decode_iterations demo_tables uniform_nets [98] = length [9, 9, 9, 9, 9, 9, 9 :: nat]"
  using loop_body_executions [of demo_tables uniform_nets "[98]"]
  by (simp add: demo_eval uniform_nets_def)

text \<open>
  A decoder that never samples the end marker makes the body run
  \<open>max_decoder_seq_length + 1 = 7\<close> times.
\<close>

theorem loop_body_executions_counterexample:
  "\<not> decode_iterations demo_tables uniform_nets [98] \<le> max_decoder_seq_length demo_tables"
  by (simp add: demo_eval uniform_nets_def)

text \<open>
  C1, as the code has it. The sampled character is appended before the stop test and
  nothing is removed afterwards: the end marker occurs in the returned string at most
  as its last character, and a returned string of at most \<open>max_decoder_seq_length\<close>
  characters does end with it.
\<close>

theorem end_marker_only_last:
  assumes "decode_sentence T N sentence = Inr out"
  shows "NEWLINE \<notin> set (butlast out)
       \<and> (length out \<le> max_decoder_seq_length T \<longrightarrow> last out = NEWLINE)"
  using decode_sentence_result [OF assms] by auto

theorem end_marker_only_last_witness:
  "decode_sentence demo_tables (count_nets 5) [98] = Inr [97, 97, 97, 97, 97, 10]
   \<and> NEWLINE \<notin> set (butlast [97, 97, 97, 97, 97, 10])
   \<and> length [97, 97, 97, 97, 97, 10 :: nat] \<le> max_decoder_seq_length demo_tables
   \<and> last [97, 97, 97, 97, 97, 10] = NEWLINE"
proof -
  have run: "decode_sentence demo_tables (count_nets 5) [98] = Inr [97, 97, 97, 97, 97, 10]"
    by (simp add: demo_eval count_nets_def)
  from end_marker_only_last [OF run] run show ?thesis
    by (simp add: demo_tables_def)
qed

text \<open>
  The decoder that emits \<open>a\<close> five times and then the end marker returns
  \<open>aaaaa\<close> followed by the end marker; the decoder that always samples index 0
  returns a string of start markers.
\<close>

theorem end_marker_returned_counterexample:
  "decode_sentence demo_tables (count_nets 5) [98] = Inr [97, 97, 97, 97, 97, 10]
   \<and> NEWLINE \<in> set [97, 97, 97, 97, 97, 10]
   \<and> decode_sentence demo_tables uniform_nets [98] = Inr [9, 9, 9, 9, 9, 9, 9]
   \<and> TAB \<in> set [9, 9, 9, 9, 9, 9, 9]"
  by (simp add: demo_eval count_nets_def uniform_nets_def)

text \<open>
  C10, as the code has it. A returned string is not empty, and its last character is
  the end marker or its length is \<open>max_decoder_seq_length + 1\<close>; both hold when the
  end marker is sampled in the last permitted step.
\<close>

theorem decode_sentence_shape:
  assumes "decode_sentence T N sentence = Inr out"
  shows "out \<noteq> [] \<and> (last out = NEWLINE \<or> length out = max_decoder_seq_length T + 1)"
  using decode_sentence_result [OF assms] by auto

theorem decode_sentence_shape_witness:
  "decode_sentence demo_tables uniform_nets [98] = Inr [9, 9, 9, 9, 9, 9, 9]
   \<and> [9, 9, 9, 9, 9, 9, 9] \<noteq> ([] :: nat list)
   \<and> length [9, 9, 9, 9, 9, 9, 9 :: nat] = max_decoder_seq_length demo_tables + 1"
proof -
  have run: "decode_sentence demo_tables uniform_nets [98] = Inr [9, 9, 9, 9, 9, 9, 9]"
    by (simp add: demo_eval uniform_nets_def)
  from decode_sentence_shape [OF run] run show ?thesis
    by (simp add: demo_tables_def NEWLINE_def)
qed

text \<open>
  The decoder that emits \<open>a\<close> six times and then the end marker returns a string of
  length \<open>max_decoder_seq_length + 1 = 7\<close> that ends with the end marker.
\<close>

theorem both_exit_shapes_counterexample:
  "decode_sentence demo_tables (count_nets 6) [98] = Inr [97, 97, 97, 97, 97, 97, 10]
   \<and> last [97, 97, 97, 97, 97, 97, 10] = NEWLINE
   \<and> length [97, 97, 97, 97, 97, 97, 10 :: nat] = max_decoder_seq_length demo_tables + 1"
  by (simp add: demo_eval count_nets_def)

section \<open>Input sentences\<close>

text \<open>
  C9. For the tables of a corpus and a decoder whose output has one value per target
  character (the width of the notebook's softmax layer), the empty sentence is decoded
  without error. Its one-hot array is the array of zeros, and this array is what the
  encoder is given: the loop starts with the encoder's state for the array of zeros,
  the one-hot start marker as current character and an empty output. The loop returns
  from this state, its non-empty output is the string returned by \<open>decode_sentence\<close>,
  and the loop body runs at least once.
\<close>

theorem empty_sentence_valid:
  assumes "prepare lines = Inr (C, T, D)"
    and "\<forall>tseq st. length (fst (decoder_model N tseq st)) = num_decoder_tokens T"
  shows "input_seq T [] = Inr (np_zeros 1 (max_encoder_seq_length T) (num_encoder_tokens T))
       \<and> (\<exists>k s'. k < num_decoder_tokens T
             \<and> getitem (target_token_index T) TAB = Inr k
             \<and> before_loop T N [] =
                 Inr \<lparr>target_seq = [[(replicate (num_decoder_tokens T) 0)[k := 1]]],
                      states_value = encoder_model N
                        (np_zeros 1 (max_encoder_seq_length T) (num_encoder_tokens T)),
                      decoded_sentence = [],
                      stop_condition = False\<rparr>
             \<and> decode_loop T N
                   \<lparr>target_seq = [[(replicate (num_decoder_tokens T) 0)[k := 1]]],
                    states_value = encoder_model N
                      (np_zeros 1 (max_encoder_seq_length T) (num_encoder_tokens T)),
                    decoded_sentence = [],
                    stop_condition = False\<rparr> = Inr s'
             \<and> decode_sentence T N [] = Inr (decoded_sentence s')
             \<and> decoded_sentence s' \<noteq> [])
       \<and> (\<exists>out. decode_sentence T N [] = Inr out \<and> out \<noteq> [])
       \<and> 1 \<le> decode_iterations T N []"
proof -
  note side = prepare_target_side [OF assms(1)]
  let ?zeros = "np_zeros 1 (max_encoder_seq_length T) (num_encoder_tokens T)"
  have iseq: "input_seq T [] = Inr ?zeros"
    by (simp add: input_seq_def)
  from side(2) obtain k where k: "k < num_decoder_tokens T"
    "getitem (target_token_index T) TAB = Inr k" by blast
  let ?s0 = "\<lparr>target_seq = [[(replicate (num_decoder_tokens T) 0)[k := 1]]],
              states_value = encoder_model N ?zeros,
              decoded_sentence = [], stop_condition = False\<rparr>"
  from k(1) have "set_one (np_zeros 1 1 (num_decoder_tokens T)) 0 0 k
      = Inr [[(replicate (num_decoder_tokens T) 0)[k := 1]]]"
    by (simp add: set_one_def np_zeros_def)
  with iseq k(2) have start: "before_loop T N [] = Inr ?s0"
    by (simp add: before_loop_def)
  from decode_loop_no_error [OF side(1,3) assms(2)] obtain s' where
    loop: "decode_loop T N ?s0 = Inr s'" by blast
  with start have run: "decode_sentence T N [] = Inr (decoded_sentence s')"
    by (simp add: decode_sentence_def)
  from decode_sentence_result [OF run] have out: "decoded_sentence s' \<noteq> []"
    and its: "1 \<le> decode_iterations T N []"
    by (cases "decoded_sentence s'"; simp)+
  from k start loop run out have pinned: "\<exists>k s'. k < num_decoder_tokens T
             \<and> getitem (target_token_index T) TAB = Inr k
             \<and> before_loop T N [] = Inr \<lparr>target_seq = [[(replicate (num_decoder_tokens T) 0)[k := 1]]],
                      states_value = encoder_model N ?zeros,
                      decoded_sentence = [], stop_condition = False\<rparr>
             \<and> decode_loop T N \<lparr>target_seq = [[(replicate (num_decoder_tokens T) 0)[k := 1]]],
                      states_value = encoder_model N ?zeros,
                      decoded_sentence = [], stop_condition = False\<rparr> = Inr s'
             \<and> decode_sentence T N [] = Inr (decoded_sentence s')
             \<and> decoded_sentence s' \<noteq> []"
    by (intro exI [of _ k] exI [of _ s']) simp
  from run out have "\<exists>out. decode_sentence T N [] = Inr out \<and> out \<noteq> []"
    by blast
  with iseq pinned its show ?thesis by (intro conjI)
qed

theorem empty_sentence_valid_witness:
  "prepare demo_lines = Inr (demo_corpus, demo_tables, demo_data)
   \<and> (\<forall>tseq st. length (fst (decoder_model probe_nets tseq st))
          = num_decoder_tokens demo_tables)
   \<and> input_seq demo_tables [] = Inr [[[0]]]
   \<and> getitem (target_token_index demo_tables) TAB = Inr 0
   \<and> before_loop demo_tables probe_nets []
        = Inr \<lparr>target_seq = [[[1, 0, 0, 0]]],
               states_value = encoder_model probe_nets [[[0]]],
               decoded_sentence = [], stop_condition = False\<rparr>
   \<and> encoder_model probe_nets [[[0]]] = 0
   \<and> encoder_model probe_nets [[[1]]] = 3
   \<and> decode_sentence demo_tables probe_nets [] = Inr [97, 97, 97, 97, 97, 10]
   \<and> decode_iterations demo_tables probe_nets [] = 6"
proof -
  have shape: "\<forall>tseq st. length (fst (decoder_model probe_nets tseq st))
      = num_decoder_tokens demo_tables"
    by (simp add: probe_nets_def demo_tables_def)
  from empty_sentence_valid [OF prepare_demo shape] prepare_demo show ?thesis
    by (simp add: demo_eval probe_nets_def eval_nat_numeral)
qed

text \<open>
  C8, as the code has it. A sentence with a character that the corpus does not have on
  its source side is never decoded. The lookup of the first such character raises
  \<open>KeyError\<close> when at most \<open>max_encoder_seq_length\<close> characters precede it;
  when more do, the write at position \<open>max_encoder_seq_length\<close> raises
  \<open>IndexError\<close> first.
\<close>

theorem unknown_character_fails:
  assumes "prepare lines = Inr (C, T, D)"
    and "set pre \<subseteq> input_chars C" and "c \<notin> input_chars C"
  shows "decode_sentence T N (pre @ c # post) =
           (if length pre \<le> max_encoder_seq_length T then Inl KeyError else Inl IndexError)"
proof -
  note side = prepare_source_side [OF assms(1)]
  from side(2) assms(3) have "getitem (input_token_index T) c = Inl KeyError" by blast
  from input_seq_unknown [OF side(1) this assms(2)]
  show ?thesis by (simp add: decode_sentence_def before_loop_def)
qed

theorem unknown_character_fails_witness:
  "prepare demo_lines = Inr (demo_corpus, demo_tables, demo_data)
   \<and> set [98] \<subseteq> input_chars demo_corpus
   \<and> 122 \<notin> input_chars demo_corpus
   \<and> decode_sentence demo_tables uniform_nets ([98] @ 122 # [98]) = Inl KeyError"
proof -
  have pre: "set [98] \<subseteq> input_chars demo_corpus" by (simp add: demo_corpus_def)
  have c: "122 \<notin> input_chars demo_corpus" by (simp add: demo_corpus_def)
  from unknown_character_fails [OF prepare_demo pre c, of uniform_nets "[98]"] prepare_demo pre c
  show ?thesis by (simp add: demo_tables_def)
qed

text \<open>
  With \<open>max_encoder_seq_length = 1\<close>, the sentence \<open>bbz\<close> fails at its second
  character with \<open>IndexError\<close>; the unknown \<open>z\<close> is never looked up.
\<close>

theorem unknown_character_index_error_counterexample:
  "getitem (input_token_index demo_tables) 122 = Inl KeyError
   \<and> decode_sentence demo_tables uniform_nets [98, 98, 122] = Inl IndexError"
  by (simp add: demo_eval uniform_nets_def)

end
